theory Spec2Isabelle
  imports Main "HOL-Library.Word" "HOL-Library.Monad_Syntax"
begin

unbundle bit_operations_syntax

section \<open>Machine model\<close>

text \<open>
  The allocator of \<^verbatim>\<open>mm.c\<close> works on a 64-bit machine: \<^verbatim>\<open>WSIZE\<close> is
  \<^verbatim>\<open>sizeof(void *)\<close>, taken as 8 bytes.  Pointers, \<^verbatim>\<open>size_t\<close> and \<^verbatim>\<open>uintptr_t\<close> are
  64-bit words whose arithmetic wraps; \<^verbatim>\<open>NULL\<close> is the address 0.

  Every access of the allocator goes through \<^verbatim>\<open>GET\<close> and \<^verbatim>\<open>PUT\<close>, which read and
  write one whole \<^verbatim>\<open>uintptr_t\<close> at a word-aligned address.  Memory is therefore a
  store of words indexed by the address of their first byte.
\<close>

type_synonym addr = "64 word"
type_synonym memory = "addr \<Rightarrow> 64 word"

definition WSIZE :: "64 word" where "WSIZE = 8"
definition DSIZE :: "64 word" where "DSIZE = 2 * WSIZE"
definition CHUNKSIZE :: "64 word" where "CHUNKSIZE = push_bit 7 1"
definition LISTS :: int where "LISTS = 16"
definition NULL :: addr where "NULL = 0"

definition PACK :: "64 word \<Rightarrow> 64 word \<Rightarrow> 64 word" where
  "PACK sz alloc = sz OR alloc"

definition GET :: "memory \<Rightarrow> addr \<Rightarrow> 64 word" where
  "GET m p = m p"

definition PUT :: "memory \<Rightarrow> addr \<Rightarrow> 64 word \<Rightarrow> memory" where
  "PUT m p val = m(p := val)"

definition GET_SIZE :: "memory \<Rightarrow> addr \<Rightarrow> 64 word" where
  "GET_SIZE m p = GET m p AND NOT (DSIZE - 1)"

definition GET_ALLOC :: "memory \<Rightarrow> addr \<Rightarrow> 64 word" where
  "GET_ALLOC m p = GET m p AND 1"

definition HDRP :: "addr \<Rightarrow> addr" where
  "HDRP bp = bp - WSIZE"

definition FTRP :: "memory \<Rightarrow> addr \<Rightarrow> addr" where
  "FTRP m bp = bp + GET_SIZE m (HDRP bp) - DSIZE"

definition NEXT_BLKP :: "memory \<Rightarrow> addr \<Rightarrow> addr" where
  "NEXT_BLKP m bp = bp + GET_SIZE m (bp - WSIZE)"

definition PREV_BLKP :: "memory \<Rightarrow> addr \<Rightarrow> addr" where
  "PREV_BLKP m bp = bp - GET_SIZE m (bp - DSIZE)"

definition NEXT_FBLK :: "addr \<Rightarrow> addr" where
  "NEXT_FBLK bp = bp"

definition PREV_FBLK :: "addr \<Rightarrow> addr" where
  "PREV_FBLK bp = bp + WSIZE"

section \<open>The bucket function\<close>

text \<open>
  \<^verbatim>\<open>mm_find_list_idx\<close>: the loop runs while \<^verbatim>\<open>idx < LISTS - 1\<close> and
  \<^verbatim>\<open>size > 32\<close>; the index is a C \<^verbatim>\<open>int\<close> that stays between 0 and 15.
\<close>

function find_list_idx_loop :: "int \<Rightarrow> 64 word \<Rightarrow> int" where
  "find_list_idx_loop idx sz =
     (if idx < LISTS - 1 \<and> sz > 32
      then (if idx > LISTS div 2
            then find_list_idx_loop (idx + 1) (drop_bit 8 sz)
            else find_list_idx_loop (idx + 1) (drop_bit 1 sz))
      else idx)"
  by pat_completeness auto
termination
  by (relation "measure (\<lambda>(idx, sz). nat (LISTS - 1 - idx))") auto

definition mm_find_list_idx :: "64 word \<Rightarrow> int" where
  "mm_find_list_idx sz = find_list_idx_loop 0 sz"

text \<open>
  The bucket function as the specification writes it, on unbounded naturals:
  start at 0; while the index is below 15 and the size above 32, shift the size
  right by 8 if the index is above 8 and by 1 otherwise, and count up.
\<close>

function spec_bucket_loop :: "nat \<Rightarrow> nat \<Rightarrow> nat" where
  "spec_bucket_loop idx sz =
     (if idx < 15 \<and> sz > 32
      then spec_bucket_loop (idx + 1) (if idx > 8 then drop_bit 8 sz else drop_bit 1 sz)
      else idx)"
  by pat_completeness auto
termination
  by (relation "measure (\<lambda>(idx, sz). 15 - idx)") auto

definition spec_bucket :: "nat \<Rightarrow> nat" where
  "spec_bucket sz = spec_bucket_loop 0 sz"

section \<open>Allocator state\<close>

text \<open>
  The globals of \<^verbatim>\<open>mm.c\<close> are the array \<^verbatim>\<open>free_lists\<close> of \<^verbatim>\<open>LISTS\<close> bucket heads
  and \<^verbatim>\<open>heap_listp\<close>; they live outside the arena.  The arena is the memory
  together with its current end \<open>mem_brk\<close> and its capacity \<open>mem_max_addr\<close>.
  Indices into \<^verbatim>\<open>free_lists\<close> are always between 0 and 15: they come from
  \<^verbatim>\<open>mm_find_list_idx\<close> or from the loop counter of \<^verbatim>\<open>find_fit\<close>.
\<close>

record heap_state =
  mem :: memory
  free_lists :: "addr list"
  heap_listp :: addr
  mem_brk :: addr
  mem_max_addr :: addr

definition put :: "heap_state \<Rightarrow> addr \<Rightarrow> 64 word \<Rightarrow> heap_state" where
  "put s p val = s\<lparr>mem := PUT (mem s) p val\<rparr>"

definition set_list :: "heap_state \<Rightarrow> int \<Rightarrow> addr \<Rightarrow> heap_state" where
  "set_list s idx p = s\<lparr>free_lists := (free_lists s)[nat idx := p]\<rparr>"

definition get_list :: "heap_state \<Rightarrow> int \<Rightarrow> addr" where
  "get_list s idx = free_lists s ! nat idx"

text \<open>
  Modelled from the spec: the arena provider (\<^verbatim>\<open>memlib.h\<close>, \<^verbatim>\<open>mem_sbrk\<close>) is not
  part of the source tree.  Extension returns the prior arena end and advances
  it by the byte count; it fails, returning \<^verbatim>\<open>(void *)-1\<close> and changing nothing,
  when the arena cannot grow by that much.
\<close>

definition mem_sbrk :: "heap_state \<Rightarrow> 64 word \<Rightarrow> heap_state \<times> addr" where
  "mem_sbrk s incr =
     (if unat (mem_brk s) + unat incr > unat (mem_max_addr s) then (s, - 1)
      else (s\<lparr>mem_brk := mem_brk s + incr\<rparr>, mem_brk s))"

text \<open>
  \<^verbatim>\<open>memcpy\<close> and \<^verbatim>\<open>memmove\<close> of the C library copy \<open>n\<close> bytes; every byte of the
  destination receives the byte the source held before the call.  Source and
  destination are word-aligned here.  A word that lies wholly inside the
  destination is replaced; when \<open>n\<close> ends inside a word, its first \<open>n mod 8\<close>
  bytes are replaced, which are the low-order ones on the little-endian
  machines the allocator runs on.
\<close>

definition merge_bytes :: "nat \<Rightarrow> 64 word \<Rightarrow> 64 word \<Rightarrow> 64 word" where
  "merge_bytes k src dst = (src AND mask (8 * k)) OR (dst AND NOT (mask (8 * k)))"

definition copy_bytes :: "memory \<Rightarrow> addr \<Rightarrow> addr \<Rightarrow> 64 word \<Rightarrow> memory" where
  "copy_bytes m dst src n =
     (\<lambda>a. if a - dst < n
          then (if n - (a - dst) \<ge> 8 then m (src + (a - dst))
                else merge_bytes (unat (n - (a - dst))) (m (src + (a - dst))) (m a))
          else m a)"

definition memcpy :: "memory \<Rightarrow> addr \<Rightarrow> addr \<Rightarrow> 64 word \<Rightarrow> memory" where
  "memcpy m dst src n = copy_bytes m dst src n"

definition memmove :: "memory \<Rightarrow> addr \<Rightarrow> addr \<Rightarrow> 64 word \<Rightarrow> memory" where
  "memmove m dst src n = copy_bytes m dst src n"

text \<open>
  Several locals of \<^verbatim>\<open>mm_realloc\<close> are declared \<^verbatim>\<open>int\<close>: the \<^verbatim>\<open>size_t\<close> value is
  cut to 32 bits and, where it meets a \<^verbatim>\<open>size_t\<close> again, sign-extended.
\<close>

definition c_int :: "64 word \<Rightarrow> 64 word" where
  "c_int x = scast (ucast x :: 32 word)"

section \<open>Initialisation\<close>

definition mm_init :: "heap_state \<Rightarrow> heap_state \<times> int" where
  "mm_init s =
     (let s0 = s\<lparr>free_lists := replicate (nat LISTS) NULL\<rparr>;
          (s1, p) = mem_sbrk s0 (4 * WSIZE);
          s2 = s1\<lparr>heap_listp := p\<rparr>
      in if p = - 1 then (s2, - 1)
         else
           (let s3 = put s2 (heap_listp s2) 0;
                s4 = put s3 (heap_listp s3 + 1 * WSIZE) (PACK DSIZE 1);
                s5 = put s4 (heap_listp s4 + 2 * WSIZE) (PACK DSIZE 1);
                s6 = put s5 (heap_listp s5 + 3 * WSIZE) (PACK 0 1)
            in (s6\<lparr>heap_listp := heap_listp s6 + DSIZE\<rparr>, 0)))"

section \<open>Free-list directory\<close>

text \<open>
  \<^verbatim>\<open>mm_remove_fblock\<close>: the index \<open>-1\<close> stands for ``derive it from the block's
  size''.
\<close>

definition mm_remove_fblock :: "heap_state \<Rightarrow> addr \<Rightarrow> int \<Rightarrow> heap_state" where
  "mm_remove_fblock s bp idx0 =
     (let pre = GET (mem s) (PREV_FBLK bp);
          suc = GET (mem s) (NEXT_FBLK bp);
          idx = (if idx0 = - 1 then mm_find_list_idx (GET_SIZE (mem s) (HDRP bp)) else idx0)
      in if pre \<noteq> NULL \<and> suc \<noteq> NULL then
           put (put s (NEXT_FBLK pre) suc) (PREV_FBLK suc) pre
         else if pre \<noteq> NULL \<and> suc = NULL then
           put s (NEXT_FBLK pre) NULL
         else if pre = NULL \<and> suc \<noteq> NULL then
           set_list (put s (PREV_FBLK suc) NULL) idx suc
         else
           set_list s idx NULL)"

text \<open>
  The search for the insertion point in \<^verbatim>\<open>mm_insert_fblock\<close>:
  \<^verbatim>\<open>while (next && (bp > next)) { curr = next; next = GET(NEXT_FBLK(curr)); }\<close>.
  On a cyclic chain the loop need not end; not returning is \<open>None\<close>.
\<close>

partial_function (option) insert_walk ::
  "memory \<Rightarrow> addr \<Rightarrow> addr \<Rightarrow> addr \<Rightarrow> (addr \<times> addr) option" where
  "insert_walk m bp cur nxt =
     (if nxt \<noteq> NULL \<and> bp > nxt
      then insert_walk m bp nxt (GET m (NEXT_FBLK nxt))
      else Some (cur, nxt))"

declare insert_walk.simps [code]

definition mm_insert_fblock :: "heap_state \<Rightarrow> addr \<Rightarrow> int \<Rightarrow> heap_state option" where
  "mm_insert_fblock s bp idx0 =
     (let idx = (if idx0 = - 1 then mm_find_list_idx (GET_SIZE (mem s) (HDRP bp)) else idx0)
      in if idx > (LISTS - 1) div 2 then
           (let cur0 = get_list s idx;
                next0 = (if cur0 \<noteq> NULL then GET (mem s) (NEXT_FBLK cur0) else NULL)
            in if cur0 \<noteq> NULL then
                 (case insert_walk (mem s) bp cur0 next0 of
                    None \<Rightarrow> None
                  | Some (cur, nxt) \<Rightarrow>
                     (let prev = GET (mem s) (PREV_FBLK cur)
                      in if prev = NULL \<and> bp < cur then
                           Some (set_list
                             (put (put (put s (NEXT_FBLK bp) cur) (PREV_FBLK cur) bp)
                                (PREV_FBLK bp) NULL) idx bp)
                         else if nxt = NULL \<and> bp > cur then
                           Some (put (put (put s (NEXT_FBLK bp) NULL) (PREV_FBLK bp) cur)
                                   (NEXT_FBLK cur) bp)
                         else if nxt = NULL \<and> bp < cur then
                           Some (put (put (put s (NEXT_FBLK prev) bp) (PREV_FBLK bp) prev)
                                   (PREV_FBLK cur) bp)
                         else if nxt \<noteq> NULL \<and> bp > cur \<and> bp < nxt then
                           Some (put (put (put (put s (NEXT_FBLK bp) nxt) (PREV_FBLK bp) cur)
                                   (NEXT_FBLK cur) bp) (PREV_FBLK nxt) bp)
                         else Some s))
               else
                 Some (set_list (put (put s (NEXT_FBLK bp) NULL) (PREV_FBLK bp) NULL) idx bp))
         else
           (let s1 = (if get_list s idx \<noteq> NULL
                      then put (put s (NEXT_FBLK bp) (get_list s idx))
                             (PREV_FBLK (get_list s idx)) bp
                      else put s (NEXT_FBLK bp) NULL)
            in Some (set_list (put s1 (PREV_FBLK bp) NULL) idx bp)))"

section \<open>Coalescing, extension, search and placement\<close>

definition coalesce :: "heap_state \<Rightarrow> addr \<Rightarrow> (heap_state \<times> addr) option" where
  "coalesce s bp =
     (let prev_alloc = GET_ALLOC (mem s) (FTRP (mem s) (PREV_BLKP (mem s) bp));
          next_alloc = GET_ALLOC (mem s) (HDRP (NEXT_BLKP (mem s) bp));
          sz = GET_SIZE (mem s) (HDRP bp)
      in if prev_alloc \<noteq> 0 \<and> next_alloc \<noteq> 0 then
           (case mm_insert_fblock s bp (- 1) of
              None \<Rightarrow> None
            | Some s1 \<Rightarrow> Some (s1, bp))
         else if prev_alloc \<noteq> 0 \<and> next_alloc = 0 then
           (let s1 = mm_remove_fblock s (NEXT_BLKP (mem s) bp) (- 1);
                sz1 = sz + GET_SIZE (mem s1) (HDRP (NEXT_BLKP (mem s1) bp));
                s2 = put s1 (FTRP (mem s1) (NEXT_BLKP (mem s1) bp)) (PACK sz1 0);
                s3 = put s2 (HDRP bp) (PACK sz1 0)
            in case mm_insert_fblock s3 bp (- 1) of
                 None \<Rightarrow> None
               | Some s4 \<Rightarrow> Some (s4, bp))
         else if prev_alloc = 0 \<and> next_alloc \<noteq> 0 then
           (let s1 = mm_remove_fblock s (PREV_BLKP (mem s) bp) (- 1);
                sz1 = sz + GET_SIZE (mem s1) (HDRP (PREV_BLKP (mem s1) bp));
                s2 = put s1 (FTRP (mem s1) bp) (PACK sz1 0);
                s3 = put s2 (HDRP (PREV_BLKP (mem s2) bp)) (PACK sz1 0)
            in case mm_insert_fblock s3 (PREV_BLKP (mem s3) bp) (- 1) of
                 None \<Rightarrow> None
               | Some s4 \<Rightarrow> Some (s4, PREV_BLKP (mem s4) bp))
         else
           (let s1 = mm_remove_fblock s (NEXT_BLKP (mem s) bp) (- 1);
                s2 = mm_remove_fblock s1 (PREV_BLKP (mem s1) bp) (- 1);
                sz1 = sz + (GET_SIZE (mem s2) (HDRP (PREV_BLKP (mem s2) bp))
                            + GET_SIZE (mem s2) (FTRP (mem s2) (NEXT_BLKP (mem s2) bp)));
                s3 = put s2 (HDRP (PREV_BLKP (mem s2) bp)) (PACK sz1 0);
                s4 = put s3 (FTRP (mem s3) (NEXT_BLKP (mem s3) bp)) (PACK sz1 0)
            in case mm_insert_fblock s4 (PREV_BLKP (mem s4) bp) (- 1) of
                 None \<Rightarrow> None
               | Some s5 \<Rightarrow> Some (s5, PREV_BLKP (mem s5) bp)))"

definition extend_heap :: "heap_state \<Rightarrow> 64 word \<Rightarrow> heap_state \<times> addr" where
  "extend_heap s words =
     (let sz = (if words mod 2 \<noteq> 0 then (words + 1) * WSIZE else words * WSIZE);
          (s1, bp) = mem_sbrk s sz
      in if bp = - 1 then (s1, NULL)
         else
           (let s2 = put s1 (HDRP bp) (PACK sz 0);
                s3 = put s2 (FTRP (mem s2) bp) (PACK sz 0);
                s4 = put s3 (HDRP (NEXT_BLKP (mem s3) bp)) (PACK 0 1)
            in (s4, bp)))"

text \<open>
  \<^verbatim>\<open>find_fit\<close>: the inner loop walks one bucket and yields the first block that
  fits, or \<^verbatim>\<open>NULL\<close> at the end of the chain; the outer loop goes through the
  buckets from the starting index up to \<^verbatim>\<open>LISTS - 1\<close>.
\<close>

partial_function (option) find_fit_list :: "memory \<Rightarrow> 64 word \<Rightarrow> addr \<Rightarrow> addr option" where
  "find_fit_list m asize bp =
     (if bp \<noteq> NULL
      then (if asize \<le> GET_SIZE m (HDRP bp) then Some bp
            else find_fit_list m asize (GET m bp))
      else Some NULL)"

declare find_fit_list.simps [code]

function find_fit_from :: "heap_state \<Rightarrow> 64 word \<Rightarrow> int \<Rightarrow> (heap_state \<times> addr) option" where
  "find_fit_from s asize idx =
     (if idx < LISTS then
        (case find_fit_list (mem s) asize (get_list s idx) of
           None \<Rightarrow> None
         | Some bp \<Rightarrow>
             if bp \<noteq> NULL then Some (mm_remove_fblock s bp idx, bp)
             else find_fit_from s asize (idx + 1))
      else Some (s, NULL))"
  by pat_completeness auto
termination
  by (relation "measure (\<lambda>(s, asize, idx). nat (LISTS - idx))") auto

definition find_fit :: "heap_state \<Rightarrow> 64 word \<Rightarrow> (heap_state \<times> addr) option" where
  "find_fit s asize = find_fit_from s asize (mm_find_list_idx asize)"

definition place :: "heap_state \<Rightarrow> addr \<Rightarrow> 64 word \<Rightarrow> heap_state option" where
  "place s bp asize =
     (let bsize = GET_SIZE (mem s) (HDRP bp);
          remain = bsize - asize
      in if remain \<ge> 4 * WSIZE then
           (let s1 = put s (HDRP bp) (PACK asize 1);
                s2 = put s1 (FTRP (mem s1) bp) (PACK asize 1);
                s3 = put s2 (HDRP (NEXT_BLKP (mem s2) bp)) (PACK remain 0);
                s4 = put s3 (FTRP (mem s3) (NEXT_BLKP (mem s3) bp)) (PACK remain 0)
            in mm_insert_fblock s4 (NEXT_BLKP (mem s4) bp) (- 1))
         else
           (let s1 = put s (HDRP bp) (PACK bsize 1);
                s2 = put s1 (FTRP (mem s1) bp) (PACK bsize 1)
            in Some s2))"

section \<open>The public operations\<close>

definition mm_free :: "heap_state \<Rightarrow> addr \<Rightarrow> heap_state option" where
  "mm_free s bp =
     (if bp = NULL then Some s
      else
        (let sz = GET_SIZE (mem s) (HDRP bp);
             s1 = put s (HDRP bp) (PACK sz 0);
             s2 = put s1 (FTRP (mem s1) bp) (PACK sz 0)
         in case coalesce s2 bp of None \<Rightarrow> None | Some (s3, r) \<Rightarrow> Some s3))"

definition mm_malloc :: "heap_state \<Rightarrow> 64 word \<Rightarrow> (heap_state \<times> addr) option" where
  "mm_malloc s sz =
     (if sz = 0 then Some (s, NULL)
      else
        (let asize = (if sz \<le> DSIZE then 2 * DSIZE
                      else DSIZE * ((sz + DSIZE + (DSIZE - 1)) div DSIZE))
         in case find_fit s asize of
              None \<Rightarrow> None
            | Some (s1, bp) \<Rightarrow>
                if bp \<noteq> NULL then
                  (case place s1 bp asize of None \<Rightarrow> None | Some s2 \<Rightarrow> Some (s2, bp))
                else
                  (let extendsize = max asize CHUNKSIZE;
                       (s2, bp2) = extend_heap s1 (extendsize div WSIZE)
                   in if bp2 = NULL then Some (s2, NULL)
                      else
                        (case place s2 bp2 asize of
                           None \<Rightarrow> None
                         | Some s3 \<Rightarrow> Some (s3, bp2)))))"

definition mm_realloc :: "heap_state \<Rightarrow> addr \<Rightarrow> 64 word \<Rightarrow> (heap_state \<times> addr) option" where
  "mm_realloc s ptr sz =
     (if sz = 0 then
        (case mm_free s ptr of None \<Rightarrow> None | Some s1 \<Rightarrow> Some (s1, NULL))
      else if ptr = NULL then mm_malloc s sz
      else
        (let asize = (if sz \<le> DSIZE then 2 * DSIZE
                      else DSIZE * ((sz + DSIZE + (DSIZE - 1)) div DSIZE))
         in if asize < GET_SIZE (mem s) (HDRP ptr) then
              (let remain = c_int (GET_SIZE (mem s) (HDRP ptr) - asize)
               in if remain \<ge> 4 * WSIZE then
                    (let s1 = put s (HDRP ptr) (PACK asize 1);
                         s2 = put s1 (FTRP (mem s1) ptr) (PACK asize 1);
                         s3 = put s2 (HDRP (NEXT_BLKP (mem s2) ptr)) (PACK remain 0);
                         s4 = put s3 (FTRP (mem s3) (NEXT_BLKP (mem s3) ptr)) (PACK remain 0)
                     in case mm_insert_fblock s4 (NEXT_BLKP (mem s4) ptr) (- 1) of
                          None \<Rightarrow> None
                        | Some s5 \<Rightarrow> Some (s5, ptr))
                  else Some (s, ptr))
            else
              (let cmbsize_next = GET_SIZE (mem s) (HDRP ptr)
                                  + GET_SIZE (mem s) (HDRP (NEXT_BLKP (mem s) ptr));
                   cmbsize_prev = GET_SIZE (mem s) (HDRP ptr)
                                  + GET_SIZE (mem s) (HDRP (PREV_BLKP (mem s) ptr))
               in if GET_ALLOC (mem s) (HDRP (NEXT_BLKP (mem s) ptr)) = 0
                     \<and> cmbsize_next \<ge> asize then
                    (let s1 = mm_remove_fblock s (NEXT_BLKP (mem s) ptr) (- 1);
                         remain = c_int (GET_SIZE (mem s1) (HDRP (NEXT_BLKP (mem s1) ptr))
                                         - (asize - GET_SIZE (mem s1) (HDRP ptr)));
                         s2 = put s1 (HDRP ptr) (PACK asize 1);
                         s3 = put s2 (FTRP (mem s2) ptr) (PACK asize 1);
                         s4 = put s3 (HDRP (NEXT_BLKP (mem s3) ptr)) (PACK remain 0);
                         s5 = put s4 (FTRP (mem s4) (NEXT_BLKP (mem s4) ptr)) (PACK remain 0)
                     in case mm_insert_fblock s5 (NEXT_BLKP (mem s5) ptr) (- 1) of
                          None \<Rightarrow> None
                        | Some s6 \<Rightarrow> Some (s6, ptr))
                  else if GET_SIZE (mem s) (HDRP (NEXT_BLKP (mem s) ptr)) = 0 then
                    (let diff = c_int (asize - GET_SIZE (mem s) (HDRP ptr));
                         (s1, r) = extend_heap s (diff div WSIZE)
                     in if r = NULL then Some (s1, NULL)
                        else
                          (let s2 = put s1 (FTRP (mem s1) (NEXT_BLKP (mem s1) ptr))
                                      (PACK (GET_SIZE (mem s1) (HDRP ptr) + diff) 1);
                               s3 = put s2 (HDRP ptr)
                                      (PACK (GET_SIZE (mem s2) (HDRP ptr) + diff) 1)
                           in Some (s3, ptr)))
                  else if GET_ALLOC (mem s) (HDRP (PREV_BLKP (mem s) ptr)) = 0
                          \<and> cmbsize_prev \<ge> asize then
                    (let newptr = PREV_BLKP (mem s) ptr;
                         cmbsize = GET_SIZE (mem s) (HDRP newptr) + GET_SIZE (mem s) (HDRP ptr);
                         s1 = mm_remove_fblock s newptr (- 1);
                         s2 = s1\<lparr>mem := memmove (mem s1) newptr ptr
                                           (GET_SIZE (mem s1) (HDRP ptr))\<rparr>;
                         s3 = put s2 (HDRP newptr) (PACK cmbsize 1);
                         s4 = put s3 (FTRP (mem s3) newptr) (PACK cmbsize 1)
                     in Some (s4, newptr))
                  else
                    (case mm_malloc s sz of
                       None \<Rightarrow> None
                     | Some (s1, newptr) \<Rightarrow>
                         if newptr = NULL then Some (s1, NULL)
                         else
                           (let copySize0 = GET_SIZE (mem s1) (HDRP ptr);
                                copySize = (if sz < copySize0 then sz else copySize0);
                                s2 = s1\<lparr>mem := memcpy (mem s1) newptr ptr copySize\<rparr>
                            in case mm_free s2 ptr of
                                 None \<Rightarrow> None
                               | Some s3 \<Rightarrow> Some (s3, newptr))))))"

section \<open>The audit\<close>

text \<open>
  \<^verbatim>\<open>mm_check\<close> returns 0 at the first violation it finds and 1 otherwise; its
  diagnostic output is not modelled.  Each of its loops is a function of its
  own; the walks over a bucket chain or over the heap need not end on a
  damaged heap.
\<close>

partial_function (option) check_marked_list :: "memory \<Rightarrow> addr \<Rightarrow> bool option" where
  "check_marked_list m free =
     (if free \<noteq> NULL
      then (if GET_ALLOC m free \<noteq> 0 then Some False
            else check_marked_list m (GET m (NEXT_FBLK free)))
      else Some True)"

declare check_marked_list.simps [code]

function check_marked_from :: "heap_state \<Rightarrow> int \<Rightarrow> bool option" where
  "check_marked_from s i =
     (if i < LISTS then
        (case check_marked_list (mem s) (get_list s i) of
           None \<Rightarrow> None
         | Some ok \<Rightarrow> if ok then check_marked_from s (i + 1) else Some False)
      else Some True)"
  by pat_completeness auto
termination
  by (relation "measure (\<lambda>(s, i). nat (LISTS - i))") auto

partial_function (option) check_contiguous :: "memory \<Rightarrow> addr \<Rightarrow> bool option" where
  "check_contiguous m bp =
     (if GET_SIZE m (HDRP bp) > 0
      then (if (GET_ALLOC m (HDRP bp) = 0 \<and> GET_ALLOC m (HDRP (PREV_BLKP m bp)) = 0)
               \<or> (GET_ALLOC m (HDRP bp) = 0 \<and> GET_ALLOC m (HDRP (NEXT_BLKP m bp)) = 0)
            then Some False
            else check_contiguous m (NEXT_BLKP m bp))
      else Some True)"

declare check_contiguous.simps [code]

text \<open>
  The third loop looks every free block up in the bucket of its size.  The flag
  \<^verbatim>\<open>found\<close> is set to 0 once, before the loop over the heap, and is carried from
  one block to the next.
\<close>

partial_function (option) search_list :: "memory \<Rightarrow> addr \<Rightarrow> addr \<Rightarrow> bool \<Rightarrow> bool option" where
  "search_list m bp free found =
     (if free \<noteq> NULL \<and> \<not> found
      then search_list m bp (GET m (NEXT_FBLK free)) (if bp = free then True else found)
      else Some found)"

declare search_list.simps [code]

partial_function (option) check_listed :: "heap_state \<Rightarrow> addr \<Rightarrow> bool \<Rightarrow> bool option" where
  "check_listed s bp found =
     (if GET_SIZE (mem s) (HDRP bp) > 0
      then (if GET_ALLOC (mem s) (HDRP bp) = 0
            then Option.bind
                   (search_list (mem s) bp
                      (get_list s (mm_find_list_idx (GET_SIZE (mem s) (HDRP bp)))) found)
                   (\<lambda>found'. if \<not> found' then Some False
                             else check_listed s (NEXT_BLKP (mem s) bp) found')
            else check_listed s (NEXT_BLKP (mem s) bp) found)
      else Some True)"

declare check_listed.simps [code]

partial_function (option) check_valid_list :: "memory \<Rightarrow> addr \<Rightarrow> bool option" where
  "check_valid_list m free =
     (if free \<noteq> NULL
      then (if GET_ALLOC m (HDRP free) \<noteq> 0 then Some False
            else if NEXT_BLKP m free \<noteq> NULL
                    \<and> NEXT_BLKP m free < free + GET_SIZE m (HDRP free)
            then Some False
            else check_valid_list m (GET m (NEXT_FBLK free)))
      else Some True)"

declare check_valid_list.simps [code]

function check_valid_from :: "heap_state \<Rightarrow> int \<Rightarrow> bool option" where
  "check_valid_from s i =
     (if i < LISTS then
        (case check_valid_list (mem s) (get_list s i) of
           None \<Rightarrow> None
         | Some ok \<Rightarrow> if ok then check_valid_from s (i + 1) else Some False)
      else Some True)"
  by pat_completeness auto
termination
  by (relation "measure (\<lambda>(s, i). nat (LISTS - i))") auto

text \<open>The last two loops only print; they still have to come to an end.\<close>

partial_function (option) walk_heap :: "memory \<Rightarrow> addr \<Rightarrow> unit option" where
  "walk_heap m bp =
     (if GET_SIZE m (HDRP bp) \<noteq> 0 then walk_heap m (NEXT_BLKP m bp) else Some ())"

declare walk_heap.simps [code]

partial_function (option) count_list_from :: "memory \<Rightarrow> addr \<Rightarrow> int \<Rightarrow> int option" where
  "count_list_from m bp free_count =
     (if bp \<noteq> NULL then count_list_from m (GET m (NEXT_FBLK bp)) (free_count + 1)
      else Some free_count)"

declare count_list_from.simps [code]

function count_lists_from :: "heap_state \<Rightarrow> int \<Rightarrow> unit option" where
  "count_lists_from s i =
     (if i < LISTS then
        (case count_list_from (mem s) (get_list s i) 0 of
           None \<Rightarrow> None
         | Some free_count \<Rightarrow> count_lists_from s (i + 1))
      else Some ())"
  by pat_completeness auto
termination
  by (relation "measure (\<lambda>(s, i). nat (LISTS - i))") auto

definition mm_check :: "heap_state \<Rightarrow> int option" where
  "mm_check s =
     (case check_marked_from s 0 of
        None \<Rightarrow> None
      | Some ok1 \<Rightarrow>
          if \<not> ok1 then Some 0
          else
            (case check_contiguous (mem s) (heap_listp s) of
               None \<Rightarrow> None
             | Some ok2 \<Rightarrow>
                 if \<not> ok2 then Some 0
                 else
                   (case check_listed s (heap_listp s) False of
                      None \<Rightarrow> None
                    | Some ok3 \<Rightarrow>
                        if \<not> ok3 then Some 0
                        else
                          (case check_valid_from s 0 of
                             None \<Rightarrow> None
                           | Some ok4 \<Rightarrow>
                               if \<not> ok4 then Some 0
                               else
                                 (case walk_heap (mem s) (heap_listp s) of
                                    None \<Rightarrow> None
                                  | Some u \<Rightarrow>
                                      (case count_lists_from s 0 of
                                         None \<Rightarrow> None
                                       | Some v \<Rightarrow> Some 1))))))"

section \<open>Buckets as doubly linked lists\<close>

text \<open>
  \<open>dll m prev p xs\<close>: in memory \<open>m\<close> the chain that starts at \<open>p\<close> runs through
  exactly the blocks \<open>xs\<close>, in this order, and ends with \<^verbatim>\<open>NULL\<close>; the backward
  link of the first block is \<open>prev\<close> and the backward link of every other block
  is its predecessor.  A bucket is well formed when its head starts such a
  chain with \<open>prev = NULL\<close>.
\<close>

fun dll :: "memory \<Rightarrow> addr \<Rightarrow> addr \<Rightarrow> addr list \<Rightarrow> bool" where
  "dll m prev p [] = (p = NULL)"
| "dll m prev p (x # xs) =
     (p = x \<and> x \<noteq> NULL \<and> GET m (PREV_FBLK x) = prev \<and> dll m x (GET m (NEXT_FBLK x)) xs)"

text \<open>
  The link words of the blocks \<open>xs\<close> are pairwise different words: the blocks
  are different, and no block's backward link word is another's forward link
  word (blocks are at least two words apart).
\<close>

definition links_apart :: "addr list \<Rightarrow> bool" where
  "links_apart xs =
     (distinct xs \<and> list_all (\<lambda>x. list_all (\<lambda>y. PREV_FBLK x \<noteq> NEXT_FBLK y) xs) xs)"

definition link_words :: "addr list \<Rightarrow> addr set" where
  "link_words xs = set (map NEXT_FBLK xs) \<union> set (map PREV_FBLK xs)"

text \<open>The bucket that an insertion or removal works on.\<close>

definition bucket_index :: "heap_state \<Rightarrow> addr \<Rightarrow> int \<Rightarrow> int" where
  "bucket_index s bp idx0 =
     (if idx0 = - 1 then mm_find_list_idx (GET_SIZE (mem s) (HDRP bp)) else idx0)"

text \<open>The first block of a chain, \<^verbatim>\<open>NULL\<close> for the empty chain.\<close>

definition hd0 :: "addr list \<Rightarrow> addr" where
  "hd0 zs = (case zs of [] \<Rightarrow> NULL | z # _ \<Rightarrow> z)"

text \<open>
  What \<^verbatim>\<open>mm_remove_fblock\<close> does to the memory when the removed block has the
  backward link \<open>pre\<close> and the forward link \<open>suc\<close>.
\<close>

definition unlink :: "memory \<Rightarrow> addr \<Rightarrow> addr \<Rightarrow> memory" where
  "unlink m pre suc =
     (if pre \<noteq> NULL \<and> suc \<noteq> NULL then m(pre := suc, suc + 8 := pre)
      else if pre \<noteq> NULL \<and> suc = NULL then m(pre := NULL)
      else if pre = NULL \<and> suc \<noteq> NULL then m(suc + 8 := NULL)
      else m)"

text \<open>\<open>within a p n\<close>: the address \<open>a\<close> lies among the \<open>n\<close> bytes that start at \<open>p\<close>.\<close>

definition within :: "addr \<Rightarrow> addr \<Rightarrow> 64 word \<Rightarrow> bool" where
  "within a p n = (a - p < n)"

section \<open>The directory as a whole\<close>

text \<open>
  \<open>B i\<close> is the list of the blocks of bucket \<open>i\<close>.  The directory is well formed
  when each of the 16 buckets is a doubly linked list of its blocks, those from
  index 8 on in ascending address order, no block is in two buckets or twice in
  one, and the link words of all the blocks are pairwise different words.
\<close>

definition listed :: "(int \<Rightarrow> addr list) \<Rightarrow> addr set" where
  "listed B = (\<Union>i \<in> set [0..LISTS - 1]. set (B i))"

definition wf_dir :: "heap_state \<Rightarrow> (int \<Rightarrow> addr list) \<Rightarrow> bool" where
  "wf_dir s B =
     (length (free_lists s) = nat LISTS \<and>
      (\<forall>i \<in> set [0..LISTS - 1].
         dll (mem s) NULL (get_list s i) (B i) \<and> distinct (B i) \<and> (7 < i \<longrightarrow> sorted (B i))) \<and>
      (\<forall>i \<in> set [0..LISTS - 1]. \<forall>j \<in> set [0..LISTS - 1].
         i \<noteq> j \<longrightarrow> set (B i) \<inter> set (B j) = {}) \<and>
      (\<forall>x \<in> listed B. \<forall>y \<in> listed B. PREV_FBLK x \<noteq> NEXT_FBLK y))"

text \<open>
  Where \<^verbatim>\<open>mm_insert_fblock\<close> puts a block \<open>r\<close> in bucket \<open>j\<close>: by address from
  index 8 on, at the head below.
\<close>

definition file_block :: "int \<Rightarrow> addr \<Rightarrow> addr list \<Rightarrow> addr list" where
  "file_block j r xs = (if 7 < j then insort r xs else r # xs)"

section \<open>First fit over the directory\<close>

text \<open>
  The search order of \<^verbatim>\<open>find_fit\<close> as the specification describes it: the
  buckets from a starting index up to 15, each in link order; the result is the
  first block, in that order, whose size is at least \<open>asize\<close>, with the index of
  its bucket.  \<open>B i\<close> is the list of blocks of bucket \<open>i\<close>.
\<close>

definition search_order :: "(int \<Rightarrow> addr list) \<Rightarrow> int \<Rightarrow> (int \<times> addr) list" where
  "search_order B idx = concat (map (\<lambda>i. map (Pair i) (B i)) [idx..LISTS - 1])"

definition first_fit ::
  "memory \<Rightarrow> 64 word \<Rightarrow> (int \<Rightarrow> addr list) \<Rightarrow> int \<Rightarrow> (int \<times> addr) option" where
  "first_fit m asize B idx =
     List.find (\<lambda>(i, bp). asize \<le> GET_SIZE m (HDRP bp)) (search_order B idx)"

text \<open>
  Every block of bucket \<open>i\<close> has a size whose bucket index is \<open>i\<close>: this is how
  \<^verbatim>\<open>mm_insert_fblock(bp, -1)\<close> files a block, under the index that
  \<^verbatim>\<open>mm_find_list_idx\<close> gives to the size in its header.
\<close>

definition filed_by_size :: "memory \<Rightarrow> (int \<Rightarrow> addr list) \<Rightarrow> bool" where
  "filed_by_size m B =
     (\<forall>i \<in> set [0..LISTS - 1]. \<forall>x \<in> set (B i). mm_find_list_idx (GET_SIZE m (HDRP x)) = i)"

section \<open>Reallocation by copying, as specified\<close>

text \<open>
  The adjusted block size that \<^verbatim>\<open>mm_malloc\<close> and \<^verbatim>\<open>mm_realloc\<close> compute from a
  request of \<open>sz\<close> bytes.
\<close>

definition adjusted_size :: "64 word \<Rightarrow> 64 word" where
  "adjusted_size sz =
     (if sz \<le> DSIZE then 2 * DSIZE else DSIZE * ((sz + DSIZE + (DSIZE - 1)) div DSIZE))"

text \<open>
  The copy fallback of \<^verbatim>\<open>mm_realloc\<close> in the words of the specification:
  \<^verbatim>\<open>malloc(size)\<close>, copy \<open>min(size, current_payload_size)\<close> bytes, \<^verbatim>\<open>free(ptr)\<close>,
  return the new pointer; on failure of \<^verbatim>\<open>malloc\<close> return null and free nothing.
  The payload of a block is the block without its header and footer.
\<close>

definition realloc_copy_spec ::
  "heap_state \<Rightarrow> addr \<Rightarrow> 64 word \<Rightarrow> (heap_state \<times> addr) option" where
  "realloc_copy_spec s ptr sz =
     (case mm_malloc s sz of
        None \<Rightarrow> None
      | Some (s1, newptr) \<Rightarrow>
          if newptr = NULL then Some (s, NULL)
          else
            (case mm_free
                    (s1\<lparr>mem := memcpy (mem s1) newptr ptr
                                    (min sz (GET_SIZE (mem s1) (HDRP ptr) - DSIZE))\<rparr>) ptr of
               None \<Rightarrow> None
             | Some s3 \<Rightarrow> Some (s3, newptr)))"

section \<open>Concrete heaps\<close>

text \<open>
  An arena of one MiB that starts at address 4096, all its bytes zero, with the
  globals still zero as at program start; and the heaps that short call
  sequences build in it.  A heap is written out as the words stored in it.
\<close>

definition arena0 :: heap_state where
  "arena0 = \<lparr>mem = (\<lambda>a. 0), free_lists = replicate 16 0, heap_listp = 0,
              mem_brk = 4096, mem_max_addr = 1052672\<rparr>"

definition heap_init :: heap_state where
  "heap_init =
     \<lparr>mem = (\<lambda>a. 0)(4096 := 0, 4104 := 17, 4112 := 17, 4120 := 1),
      free_lists = [0, 0, 0, 0, 0, 0, 0, 0, 0, 0, 0, 0, 0, 0, 0, 0],
      heap_listp = 4112, mem_brk = 4128, mem_max_addr = 1052672\<rparr>"

text \<open>After \<^verbatim>\<open>mm_init(); a = mm_malloc(48);\<close>\<close>

definition heap_a48 :: heap_state where
  "heap_a48 =
     \<lparr>mem = (\<lambda>a. 0)(4096 := 0, 4104 := 17, 4112 := 17, 4248 := 1, 4120 := 65,
              4176 := 65, 4184 := 64, 4240 := 64, 4192 := 0, 4200 := 0),
      free_lists = [0, 4192, 0, 0, 0, 0, 0, 0, 0, 0, 0, 0, 0, 0, 0, 0],
      heap_listp = 4112, mem_brk = 4256, mem_max_addr = 1052672\<rparr>"

text \<open>After \<^verbatim>\<open>mm_init(); a = mm_malloc(48); mm_realloc(a, 1);\<close>\<close>

definition heap_shrunk :: heap_state where
  "heap_shrunk =
     \<lparr>mem = (\<lambda>a. 0)(4096 := 0, 4104 := 17, 4112 := 17, 4248 := 1, 4184 := 64,
              4240 := 64, 4192 := 0, 4200 := 0, 4120 := 33, 4144 := 33,
              4152 := 32, 4176 := 32, 4160 := 0, 4168 := 0),
      free_lists = [4160, 4192, 0, 0, 0, 0, 0, 0, 0, 0, 0, 0, 0, 0, 0, 0],
      heap_listp = 4112, mem_brk = 4256, mem_max_addr = 1052672\<rparr>"

text \<open>After \<^verbatim>\<open>mm_init(); a = mm_malloc(1);\<close>\<close>

definition heap_a1 :: heap_state where
  "heap_a1 =
     \<lparr>mem = (\<lambda>a. 0)(4096 := 0, 4104 := 17, 4112 := 17, 4248 := 1, 4120 := 33,
              4144 := 33, 4152 := 96, 4240 := 96, 4160 := 0, 4168 := 0),
      free_lists = [0, 0, 4160, 0, 0, 0, 0, 0, 0, 0, 0, 0, 0, 0, 0, 0],
      heap_listp = 4112, mem_brk = 4256, mem_max_addr = 1052672\<rparr>"

text \<open>After \<^verbatim>\<open>mm_init(); a = mm_malloc(1); mm_realloc(a, 100);\<close>\<close>

definition heap_grown :: heap_state where
  "heap_grown =
     \<lparr>mem = (\<lambda>a. 0)(4096 := 0, 4104 := 17, 4112 := 17, 4144 := 33, 4152 := 96,
              4160 := 0, 4168 := 0, 4120 := 129, 4248 := 0, 4240 := 0,
              4256 := 0, 4264 := 0),
      free_lists = [4256, 0, 0, 0, 0, 0, 0, 0, 0, 0, 0, 0, 0, 0, 0, 0],
      heap_listp = 4112, mem_brk = 4256, mem_max_addr = 1052672\<rparr>"

text \<open>
  After \<^verbatim>\<open>mm_init(); a = mm_malloc(4200); b = mm_malloc(100); c = mm_malloc(4200);\<close>:
  three allocated blocks, \<open>a\<close> at 4128 and \<open>c\<close> at 8480 with 4224 bytes each,
  \<open>b\<close> at 8352 with 128 bytes between them.
\<close>

definition heap_abc :: heap_state where
  "heap_abc =
     \<lparr>mem = (\<lambda>a. 0)(4096 := 0, 4104 := 17, 4112 := 17, 4120 := 4225, 8336 := 4225,
              8344 := 129, 8464 := 129, 12696 := 1, 8472 := 4225, 12688 := 4225),
      free_lists = [0, 0, 0, 0, 0, 0, 0, 0, 0, 0, 0, 0, 0, 0, 0, 0],
      heap_listp = 4112, mem_brk = 12704, mem_max_addr = 1052672\<rparr>"

text \<open>Then \<^verbatim>\<open>mm_free(a);\<close>\<close>

definition heap_bc :: heap_state where
  "heap_bc =
     \<lparr>mem = (\<lambda>a. 0)(4096 := 0, 4104 := 17, 4112 := 17, 8344 := 129, 8464 := 129,
              12696 := 1, 8472 := 4225, 12688 := 4225, 4120 := 4224,
              8336 := 4224, 4128 := 0, 4136 := 0),
      free_lists = [0, 0, 0, 0, 0, 0, 0, 0, 4128, 0, 0, 0, 0, 0, 0, 0],
      heap_listp = 4112, mem_brk = 12704, mem_max_addr = 1052672\<rparr>"

text \<open>
  Inside \<^verbatim>\<open>mm_free(c)\<close>: the allocation bit of \<open>c\<close> is cleared in header and
  footer; this is the heap that \<^verbatim>\<open>coalesce\<close> hands to \<^verbatim>\<open>mm_insert_fblock\<close>.
\<close>

definition heap_bc_cleared :: heap_state where
  "heap_bc_cleared =
     \<lparr>mem = (\<lambda>a. 0)(4096 := 0, 4104 := 17, 4112 := 17, 8344 := 129, 8464 := 129,
              12696 := 1, 4120 := 4224, 8336 := 4224, 4128 := 0, 4136 := 0,
              8472 := 4224, 12688 := 4224),
      free_lists = [0, 0, 0, 0, 0, 0, 0, 0, 4128, 0, 0, 0, 0, 0, 0, 0],
      heap_listp = 4112, mem_brk = 12704, mem_max_addr = 1052672\<rparr>"

text \<open>After \<^verbatim>\<open>mm_free(c)\<close> has returned.\<close>

definition heap_b :: heap_state where
  "heap_b =
     \<lparr>mem = (\<lambda>a. 0)(4096 := 0, 4104 := 17, 4112 := 17, 8344 := 129, 8464 := 129,
              12696 := 1, 4120 := 4224, 8336 := 4224, 4136 := 0, 8472 := 4224,
              12688 := 4224, 8480 := 0, 8488 := 4128, 4128 := 8480),
      free_lists = [0, 0, 0, 0, 0, 0, 0, 0, 4128, 0, 0, 0, 0, 0, 0, 0],
      heap_listp = 4112, mem_brk = 12704, mem_max_addr = 1052672\<rparr>"

text \<open>
  Inside \<^verbatim>\<open>mm_free(b)\<close> after that: the allocation bit of \<open>b\<close> is cleared in header
  and footer, and both neighbours of \<open>b\<close> are free blocks of bucket 8; this is
  the heap that \<^verbatim>\<open>mm_free\<close> hands to \<^verbatim>\<open>coalesce\<close>.
\<close>

definition heap_b_cleared :: heap_state where
  "heap_b_cleared =
     \<lparr>mem = (\<lambda>a. 0)(4096 := 0, 4104 := 17, 4112 := 17, 8344 := 128, 8464 := 128,
              12696 := 1, 4120 := 4224, 8336 := 4224, 4136 := 0, 8472 := 4224,
              12688 := 4224, 8480 := 0, 8488 := 4128, 4128 := 8480),
      free_lists = [0, 0, 0, 0, 0, 0, 0, 0, 4128, 0, 0, 0, 0, 0, 0, 0],
      heap_listp = 4112, mem_brk = 12704, mem_max_addr = 1052672\<rparr>"

text \<open>
  After \<^verbatim>\<open>mm_init(); a = mm_malloc(1); b = mm_malloc(80);\<close>: \<open>a\<close> at 4128 with 32
  bytes, \<open>b\<close> at 4160 with 96 bytes, nothing free.
\<close>

definition heap_ab80 :: heap_state where
  "heap_ab80 =
     \<lparr>mem = (\<lambda>a. 0)(4096 := 0, 4104 := 17, 4112 := 17, 4248 := 1, 4120 := 33,
              4144 := 33, 4160 := 0, 4168 := 0, 4152 := 97, 4240 := 97),
      free_lists = [0, 0, 0, 0, 0, 0, 0, 0, 0, 0, 0, 0, 0, 0, 0, 0],
      heap_listp = 4112, mem_brk = 4256, mem_max_addr = 1052672\<rparr>"

text \<open>Then \<^verbatim>\<open>mm_malloc(24)\<close>, which returns 4256.\<close>

definition heap_ab80_new :: heap_state where
  "heap_ab80_new =
     \<lparr>mem = (\<lambda>a. 0)(4096 := 0, 4104 := 17, 4112 := 17, 4120 := 33, 4144 := 33,
              4160 := 0, 4168 := 0, 4152 := 97, 4240 := 97, 4376 := 1,
              4248 := 49, 4288 := 49, 4296 := 80, 4368 := 80, 4304 := 0,
              4312 := 0),
      free_lists = [0, 0, 4304, 0, 0, 0, 0, 0, 0, 0, 0, 0, 0, 0, 0, 0],
      heap_listp = 4112, mem_brk = 4384, mem_max_addr = 1052672\<rparr>"

text \<open>
  After \<^verbatim>\<open>mm_realloc(a, 24)\<close> in the heap with \<open>a\<close> and \<open>b\<close>: as the code leaves
  it, with 24 bytes copied, and as the specification describes it, with the 16
  bytes of the payload copied.
\<close>

definition heap_moved :: heap_state where
  "heap_moved =
     \<lparr>mem = (memcpy (mem heap_ab80_new) 4256 4128 24)
              (4120 := 32, 4144 := 32, 4128 := 0, 4136 := 0),
      free_lists = [4128, 0, 4304, 0, 0, 0, 0, 0, 0, 0, 0, 0, 0, 0, 0, 0],
      heap_listp = 4112, mem_brk = 4384, mem_max_addr = 1052672\<rparr>"

definition heap_moved_spec :: heap_state where
  "heap_moved_spec =
     \<lparr>mem = (memcpy (mem heap_ab80_new) 4256 4128 16)
              (4120 := 32, 4144 := 32, 4128 := 0, 4136 := 0),
      free_lists = [4128, 0, 4304, 0, 0, 0, 0, 0, 0, 0, 0, 0, 0, 0, 0, 0],
      heap_listp = 4112, mem_brk = 4384, mem_max_addr = 1052672\<rparr>"

text \<open>The heap with \<open>a\<close> and \<open>b\<close> in an arena that cannot grow any more.\<close>

definition heap_ab80_full :: heap_state where
  "heap_ab80_full = heap_ab80\<lparr>mem_max_addr := 4256\<rparr>"

text \<open>
  The heap with \<open>a\<close> (4128, 32 bytes) and \<open>b\<close> (4160, 96 bytes) after
  \<^verbatim>\<open>mm_free(a)\<close>, and after the following \<^verbatim>\<open>mm_realloc(b, 100)\<close>.
\<close>

definition heap_fa80 :: heap_state where
  "heap_fa80 =
     \<lparr>mem = (\<lambda>a. 0)(4096 := 0, 4104 := 17, 4112 := 17, 4248 := 1, 4160 := 0,
              4168 := 0, 4152 := 97, 4240 := 97, 4120 := 32, 4144 := 32,
              4128 := 0, 4136 := 0),
      free_lists = [4128, 0, 0, 0, 0, 0, 0, 0, 0, 0, 0, 0, 0, 0, 0, 0],
      heap_listp = 4112, mem_brk = 4256, mem_max_addr = 1052672\<rparr>"

definition heap_fa80_grown :: heap_state where
  "heap_fa80_grown =
     \<lparr>mem = (\<lambda>a. 0)(4096 := 0, 4104 := 17, 4112 := 17, 4160 := 0, 4168 := 0,
              4240 := 97, 4120 := 32, 4144 := 32, 4128 := 0, 4136 := 0,
              4248 := 32, 4280 := 1, 4272 := 129, 4152 := 129),
      free_lists = [4128, 0, 0, 0, 0, 0, 0, 0, 0, 0, 0, 0, 0, 0, 0, 0],
      heap_listp = 4112, mem_brk = 4288, mem_max_addr = 1052672\<rparr>"

text \<open>
  After \<^verbatim>\<open>mm_init(); a = mm_malloc(100); b = mm_malloc(1);\<close>: \<open>a\<close> at 4128 with
  128 bytes, \<open>b\<close> at 4256 with 32 bytes, a free block of 96 bytes at 4288.
\<close>

definition heap_a100_b1 :: heap_state where
  "heap_a100_b1 =
     \<lparr>mem = (\<lambda>a. 0)(4096 := 0, 4104 := 17, 4112 := 17, 4120 := 129, 4240 := 129,
              4376 := 1, 4248 := 33, 4272 := 33, 4280 := 96, 4368 := 96,
              4288 := 0, 4296 := 0),
      free_lists = [0, 0, 4288, 0, 0, 0, 0, 0, 0, 0, 0, 0, 0, 0, 0, 0],
      heap_listp = 4112, mem_brk = 4384, mem_max_addr = 1052672\<rparr>"

text \<open>
  The caller has written the words 43690 and 48059 into the payload of \<open>b\<close>
  and called \<^verbatim>\<open>mm_free(a)\<close>.
\<close>

definition heap_left_free :: heap_state where
  "heap_left_free =
     \<lparr>mem = (\<lambda>a. 0)(4096 := 0, 4104 := 17, 4112 := 17, 4376 := 1, 4248 := 33,
              4272 := 33, 4280 := 96, 4368 := 96, 4288 := 0, 4256 := 43690,
              4264 := 48059, 4120 := 128, 4240 := 128, 4128 := 4288,
              4296 := 4128, 4136 := 0),
      free_lists = [0, 0, 4128, 0, 0, 0, 0, 0, 0, 0, 0, 0, 0, 0, 0, 0],
      heap_listp = 4112, mem_brk = 4384, mem_max_addr = 1052672\<rparr>"

text \<open>Then \<^verbatim>\<open>mm_realloc(b, 120)\<close>.\<close>

definition heap_left_grown :: heap_state where
  "heap_left_grown =
     \<lparr>mem = (memmove ((mem heap_left_free)(4296 := 0)) 4128 4256 32)
              (4120 := 161, 4272 := 161),
      free_lists = [0, 0, 4288, 0, 0, 0, 0, 0, 0, 0, 0, 0, 0, 0, 0, 0],
      heap_listp = 4112, mem_brk = 4384, mem_max_addr = 1052672\<rparr>"

declare find_list_idx_loop.simps [simp del]
declare find_fit_from.simps [simp del]
declare check_marked_from.simps [simp del]
declare check_valid_from.simps [simp del]
declare count_lists_from.simps [simp del]
declare spec_bucket_loop.simps [simp del]

section \<open>Properties of the bucket function\<close>

lemma find_list_idx_loop_spec:
  "0 \<le> idx \<Longrightarrow> find_list_idx_loop idx sz = int (spec_bucket_loop (nat idx) (unat sz))"
proof (induction idx sz rule: find_list_idx_loop.induct)
  case (1 idx sz)
  have gt: "(sz > 32) = (unat sz > 32)"
    by (simp add: word_less_nat_alt)
  have dn: "unat (drop_bit n sz) = drop_bit n (unat sz)" for n
    by (simp add: unat_drop_bit_eq)
  show ?case
  proof (cases "idx < LISTS - 1 \<and> sz > 32")
    case False
    then show ?thesis
      using "1.prems" gt
      by (subst find_list_idx_loop.simps, subst spec_bucket_loop.simps)
         (auto simp: LISTS_def)
  next
    case True
    have n: "nat (idx + 1) = nat idx + 1" using "1.prems" by simp
    show ?thesis
    proof (cases "idx > LISTS div 2")
      case hi: True
      have "find_list_idx_loop idx sz = find_list_idx_loop (idx + 1) (drop_bit 8 sz)"
        using True hi by (subst find_list_idx_loop.simps) simp
      also have "\<dots> = int (spec_bucket_loop (nat (idx + 1)) (unat (drop_bit 8 sz)))"
        using "1.IH"(1) [OF True hi] "1.prems" by simp
      also have "\<dots> = int (spec_bucket_loop (nat idx) (unat sz))"
        using True hi gt "1.prems"
        by (subst (2) spec_bucket_loop.simps) (auto simp: LISTS_def n dn)
      finally show ?thesis .
    next
      case lo: False
      have "find_list_idx_loop idx sz = find_list_idx_loop (idx + 1) (drop_bit 1 sz)"
        using True lo by (subst find_list_idx_loop.simps) simp
      also have "\<dots> = int (spec_bucket_loop (nat (idx + 1)) (unat (drop_bit 1 sz)))"
        using "1.IH"(2) [OF True lo] "1.prems" by simp
      also have "\<dots> = int (spec_bucket_loop (nat idx) (unat sz))"
        using True lo gt "1.prems"
        by (subst (2) spec_bucket_loop.simps) (auto simp: LISTS_def n dn)
      finally show ?thesis .
    qed
  qed
qed

text \<open>
  C6.  For every size, \<^verbatim>\<open>mm_find_list_idx\<close> returns exactly the index that the
  pseudocode of the specification computes: start at 0; while the index is below
  15 and the size above 32, shift the size right by 8 if the index is above 8,
  else by 1, and increment the index.
\<close>

theorem mm_find_list_idx_refines_spec:
  "mm_find_list_idx sz = int (spec_bucket (unat sz))"
  by (simp add: mm_find_list_idx_def spec_bucket_def find_list_idx_loop_spec)

lemma find_list_idx_loop_range:
  "0 \<le> idx \<Longrightarrow> idx \<le> 15 \<Longrightarrow>
   idx \<le> find_list_idx_loop idx sz \<and> find_list_idx_loop idx sz \<le> 15"
proof (induction idx sz rule: find_list_idx_loop.induct)
  case (1 idx sz)
  show ?case
  proof (cases "idx < LISTS - 1 \<and> sz > 32")
    case False
    then have "find_list_idx_loop idx sz = idx"
      by (subst find_list_idx_loop.simps) auto
    then show ?thesis using "1.prems" by simp
  next
    case True
    then have b: "0 \<le> idx + 1" "idx + 1 \<le> 15"
      using "1.prems" by (simp_all add: LISTS_def)
    show ?thesis
    proof (cases "idx > LISTS div 2")
      case hi: True
      show ?thesis
        using "1.IH"(1) [OF True hi b] True hi
        by (subst (1 2) find_list_idx_loop.simps) simp
    next
      case lo: False
      show ?thesis
        using "1.IH"(2) [OF True lo b] True lo
        by (subst (1 2) find_list_idx_loop.simps) simp
    qed
  qed
qed

lemma drop_bit_word_mono:
  "s \<le> t \<Longrightarrow> drop_bit n s \<le> drop_bit n (t :: 64 word)"
proof -
  assume "s \<le> t"
  then have "unat s div 2 ^ n \<le> unat t div 2 ^ n"
    by (simp add: word_le_nat_alt div_le_mono)
  then have "drop_bit n (unat s) \<le> drop_bit n (unat t)"
    by (simp add: drop_bit_eq_div)
  then show ?thesis
    by (simp add: word_le_nat_alt unat_drop_bit_eq)
qed

lemma find_list_idx_loop_mono:
  "s \<le> t \<Longrightarrow> 0 \<le> idx \<Longrightarrow> idx \<le> 15 \<Longrightarrow>
   find_list_idx_loop idx s \<le> find_list_idx_loop idx t"
proof (induction idx s arbitrary: t rule: find_list_idx_loop.induct)
  case (1 idx sz)
  show ?case
  proof (cases "idx < LISTS - 1 \<and> sz > 32")
    case False
    then have "find_list_idx_loop idx sz = idx"
      by (subst find_list_idx_loop.simps) auto
    then show ?thesis
      using find_list_idx_loop_range [OF "1.prems"(2,3), of t] by simp
  next
    case True
    then have b: "0 \<le> idx + 1" "idx + 1 \<le> 15"
      using "1.prems" by (simp_all add: LISTS_def)
    have Tt: "idx < LISTS - 1 \<and> t > 32"
      using True "1.prems"(1) by auto
    show ?thesis
    proof (cases "idx > LISTS div 2")
      case hi: True
      have "find_list_idx_loop (idx + 1) (drop_bit 8 sz)
            \<le> find_list_idx_loop (idx + 1) (drop_bit 8 t)"
        using "1.IH"(1) [OF True hi drop_bit_word_mono [OF "1.prems"(1)] b] .
      then show ?thesis
        using True Tt hi
        by (subst find_list_idx_loop.simps, subst (2) find_list_idx_loop.simps) simp
    next
      case lo: False
      have "find_list_idx_loop (idx + 1) (drop_bit 1 sz)
            \<le> find_list_idx_loop (idx + 1) (drop_bit 1 t)"
        using "1.IH"(2) [OF True lo drop_bit_word_mono [OF "1.prems"(1)] b] .
      then show ?thesis
        using True Tt lo
        by (subst find_list_idx_loop.simps, subst (2) find_list_idx_loop.simps) simp
    qed
  qed
qed

lemma mm_find_list_idx_range: "0 \<le> mm_find_list_idx sz \<and> mm_find_list_idx sz \<le> 15"
  using find_list_idx_loop_range [of 0 sz] by (simp add: mm_find_list_idx_def)

lemma mm_find_list_idx_mono: "s \<le> t \<Longrightarrow> mm_find_list_idx s \<le> mm_find_list_idx t"
  using find_list_idx_loop_mono [of s t 0] by (simp add: mm_find_list_idx_def)

section \<open>Insertion into a bucket\<close>

lemma links_apart_iff:
  "links_apart xs = (distinct xs \<and> (\<forall>x \<in> set xs. \<forall>y \<in> set xs. x + 8 \<noteq> y))"
  by (simp add: links_apart_def list_all_iff PREV_FBLK_def NEXT_FBLK_def WSIZE_def)

lemma dll_frame:
  "dll m p h xs \<Longrightarrow> (\<And>x. x \<in> set xs \<Longrightarrow> m' x = m x \<and> m' (x + 8) = m (x + 8)) \<Longrightarrow>
   dll m' p h xs"
  by (induction xs arbitrary: p h)
     (auto simp: GET_def PREV_FBLK_def NEXT_FBLK_def WSIZE_def)

lemma dll_nonnull: "dll m p h xs \<Longrightarrow> NULL \<notin> set xs"
  by (induction xs arbitrary: p h) auto

lemma dll_head: "dll m p h xs \<Longrightarrow> h = (case xs of [] \<Rightarrow> NULL | x # _ \<Rightarrow> x)"
  by (cases xs) auto

lemma eight_neq [simp]: "(x :: 64 word) + 8 \<noteq> x" "x \<noteq> (x :: 64 word) + 8"
  by simp_all

text \<open>Putting a block in front of a chain.\<close>

lemma dll_push:
  assumes "dll m NULL h xs" "bp \<noteq> NULL" "links_apart (bp # xs)"
  shows "dll (if h \<noteq> NULL then m(bp := h, h + 8 := bp, bp + 8 := NULL)
              else m(bp := NULL, bp + 8 := NULL)) NULL bp (bp # xs)"
proof (cases xs)
  case Nil
  then show ?thesis using assms
    by (simp add: GET_def PREV_FBLK_def NEXT_FBLK_def WSIZE_def)
next
  case (Cons x ys)
  with assms have h: "h = x" "x \<noteq> NULL" and tl: "dll m x (m x) ys"
    by (simp_all add: GET_def NEXT_FBLK_def)
  from assms(3) Cons have ap: "bp \<noteq> x" "bp + 8 \<noteq> x" "x + 8 \<noteq> bp"
    "\<And>y. y \<in> set ys \<Longrightarrow> y \<noteq> bp \<and> y \<noteq> x \<and> y + 8 \<noteq> bp \<and> y + 8 \<noteq> x \<and> bp + 8 \<noteq> y \<and> x + 8 \<noteq> y"
    by (auto simp: links_apart_iff)
  let ?m = "m(bp := x, x + 8 := bp, bp + 8 := NULL)"
  have "dll ?m x (m x) ys"
    using tl by (rule dll_frame) (use ap in auto)
  then show ?thesis
    using h ap(1-3) assms(2) Cons
    by (simp add: GET_def PREV_FBLK_def NEXT_FBLK_def WSIZE_def)
qed

text \<open>Splicing a block in behind the block \<open>c\<close> of a chain.\<close>

lemma dll_splice:
  assumes "dll m p h (as @ c # zs)" "bp \<noteq> NULL" "links_apart (bp # as @ c # zs)"
  shows "dll (if hd0 zs = NULL then m(bp := NULL, bp + 8 := c, c := bp)
              else m(bp := hd0 zs, bp + 8 := c, c := bp, hd0 zs + 8 := bp))
             p h (as @ c # bp # zs)"
  using assms
proof (induction as arbitrary: p h)
  case Nil
  let ?m = "(if hd0 zs = NULL then m(bp := NULL, bp + 8 := c, c := bp)
              else m(bp := hd0 zs, bp + 8 := c, c := bp, hd0 zs + 8 := bp))"
  from Nil have c: "h = c" "c \<noteq> NULL" "m (c + 8) = p" and tl: "dll m c (m c) zs"
    by (simp_all add: GET_def NEXT_FBLK_def PREV_FBLK_def WSIZE_def)
  from Nil(3) have ap: "bp \<noteq> c" "bp + 8 \<noteq> c" "c + 8 \<noteq> bp"
    "\<And>y. y \<in> set zs \<Longrightarrow> y \<noteq> bp \<and> y \<noteq> c \<and> y + 8 \<noteq> bp \<and> y + 8 \<noteq> c \<and> bp + 8 \<noteq> y \<and> c + 8 \<noteq> y"
    "distinct zs" "\<And>x y. x \<in> set zs \<Longrightarrow> y \<in> set zs \<Longrightarrow> x + 8 \<noteq> y"
    by (auto simp: links_apart_iff)
  have nn: "NULL \<notin> set zs" using tl by (rule dll_nonnull)
  show ?case
  proof (cases zs)
    case zNil: Nil
    then show ?thesis using c ap(1-3) Nil(2)
      by (simp add: hd0_def GET_def NEXT_FBLK_def PREV_FBLK_def WSIZE_def NULL_def)
  next
    case (Cons z zs')
    then have z: "hd0 zs = z" "z \<noteq> NULL" "m c = z" and tl': "dll m z (m z) zs'"
      using tl nn by (auto simp: hd0_def GET_def NEXT_FBLK_def)
    have zap: "z \<noteq> bp" "z \<noteq> c" "z + 8 \<noteq> bp" "z + 8 \<noteq> c" "bp + 8 \<noteq> z" "c + 8 \<noteq> z"
      using ap(4) [of z] Cons by auto
    define M where "M = m(bp := z, bp + 8 := c, c := bp, z + 8 := bp)"
    have vals: "M (c + 8) = p" "M c = bp" "M (bp + 8) = c" "M bp = z" "M (z + 8) = bp" "M z = m z"
      using zap ap(1-3) c by (simp_all add: M_def)
    have "dll M z (m z) zs'"
      using tl'
    proof (rule dll_frame)
      fix x assume "x \<in> set zs'"
      then have "x \<in> set zs" "x \<noteq> z" using Cons ap(5) by auto
      then show "M x = m x \<and> M (x + 8) = m (x + 8)"
        using ap(4) [of x] ap(6) [of z x] ap(6) [of x z] Cons by (auto simp: M_def)
    qed
    then have "dll M p h (c # bp # zs)"
      using c z vals Nil(2) Cons
      by (simp add: GET_def NEXT_FBLK_def PREV_FBLK_def WSIZE_def)
    moreover have "?m = M"
      using z by (simp add: M_def)
    ultimately show ?thesis by simp
  qed
next
  case (Cons a as)
  let ?m = "(if hd0 zs = NULL then m(bp := NULL, bp + 8 := c, c := bp)
              else m(bp := hd0 zs, bp + 8 := c, c := bp, hd0 zs + 8 := bp))"
  from Cons.prems(1) have a: "h = a" "a \<noteq> NULL" "m (a + 8) = p"
    and tl: "dll m a (m a) (as @ c # zs)"
    by (simp_all add: GET_def NEXT_FBLK_def PREV_FBLK_def WSIZE_def)
  from Cons.prems(3) have ap': "links_apart (bp # as @ c # zs)"
    by (auto simp: links_apart_iff)
  have ih: "dll ?m a (m a) (as @ c # bp # zs)"
    using Cons.IH [OF tl Cons.prems(2) ap'] .
  from Cons.prems(3) have ap: "a \<noteq> bp" "a \<noteq> c" "a + 8 \<noteq> bp" "a + 8 \<noteq> c" "bp + 8 \<noteq> a"
    "c + 8 \<noteq> a" "\<And>y. y \<in> set zs \<Longrightarrow> y \<noteq> a \<and> y + 8 \<noteq> a \<and> a + 8 \<noteq> y"
    by (auto simp: links_apart_iff)
  have hz: "hd0 zs \<noteq> NULL \<Longrightarrow> hd0 zs \<in> set zs"
    by (cases zs) (auto simp: hd0_def NULL_def)
  define M where "M = ?m"
  have "M a = m a" "M (a + 8) = m (a + 8)"
    using ap(1-6) ap(7) [OF hz] by (auto simp: M_def)
  then have "dll M p h (a # as @ c # bp # zs)"
    using ih a by (simp add: GET_def NEXT_FBLK_def PREV_FBLK_def WSIZE_def flip: M_def)
  then show ?case by (simp add: M_def)
qed

lemma insert_walk_sorted:
  "dll m p c (c # ys) \<Longrightarrow> sorted (c # ys) \<Longrightarrow> c < bp \<Longrightarrow> bp \<notin> set ys \<Longrightarrow>
   \<exists>as c' zs. c # ys = as @ c' # zs \<and> insert_walk m bp c (m c) = Some (c', hd0 zs) \<and>
      c' < bp \<and> (\<forall>z \<in> set zs. bp < z)"
proof (induction ys arbitrary: p c)
  case Nil
  then have "m c = NULL" by (simp add: GET_def NEXT_FBLK_def)
  then have "insert_walk m bp c (m c) = Some (c, hd0 [])"
    by (subst insert_walk.simps) (simp add: hd0_def)
  with Nil show ?case by fastforce
next
  case (Cons y ys)
  from Cons.prems(1) have y: "m c = y" "y \<noteq> NULL" and tl: "dll m c y (y # ys)"
    by (simp_all add: GET_def NEXT_FBLK_def)
  show ?case
  proof (cases "y < bp")
    case True
    have tl': "dll m c y (y # ys)" using tl .
    have "sorted (y # ys)" "bp \<notin> set ys" using Cons.prems by auto
    from Cons.IH [OF tl' this(1) True this(2)]
    obtain as c' zs where r: "y # ys = as @ c' # zs"
      "insert_walk m bp y (m y) = Some (c', hd0 zs)" "c' < bp" "\<forall>z \<in> set zs. bp < z"
      by blast
    have "insert_walk m bp c (m c) = insert_walk m bp y (m y)"
      using y True by (subst insert_walk.simps) (simp add: GET_def NEXT_FBLK_def)
    with r have "c # y # ys = (c # as) @ c' # zs \<and>
        insert_walk m bp c (m c) = Some (c', hd0 zs) \<and> c' < bp \<and> (\<forall>z \<in> set zs. bp < z)"
      by simp
    then show ?thesis by blast
  next
    case False
    with Cons.prems(4) have lt: "bp < y" by auto
    then have "insert_walk m bp c (m c) = Some (c, hd0 (y # ys))"
      using y by (subst insert_walk.simps) (auto simp: hd0_def)
    moreover have "\<forall>z \<in> set (y # ys). bp < z"
      using lt Cons.prems(2) by auto
    ultimately have "c # y # ys = [] @ c # (y # ys) \<and>
        insert_walk m bp c (m c) = Some (c, hd0 (y # ys)) \<and> c < bp \<and> (\<forall>z \<in> set (y # ys). bp < z)"
      using Cons.prems(3) by simp
    then show ?thesis by blast
  qed
qed

lemma insort_between:
  "sorted (as @ c # zs) \<Longrightarrow> c < bp \<Longrightarrow> \<forall>z \<in> set zs. bp < z \<Longrightarrow>
   insort bp (as @ c # zs) = as @ c # bp # (zs :: addr list)"
proof (induction as)
  case Nil
  then have "insort bp zs = bp # zs"
    by (intro insort_is_Cons) auto
  with Nil show ?case by auto
next
  case (Cons a as)
  then have "a \<le> c" by auto
  with Cons show ?case by auto
qed

lemma get_list_set_list:
  "0 \<le> idx \<Longrightarrow> nat idx < length (free_lists s) \<Longrightarrow> get_list (set_list s idx p) idx = p"
  by (simp add: get_list_def set_list_def)

lemma get_list_set_list_other:
  "0 \<le> idx \<Longrightarrow> 0 \<le> j \<Longrightarrow> j \<noteq> idx \<Longrightarrow> get_list (set_list s idx p) j = get_list s j"
  by (simp add: get_list_def set_list_def)

lemma link_words_iff:
  "a \<in> link_words xs = (\<exists>x \<in> set xs. a = x \<or> a = x + 8)"
  by (auto simp: link_words_def NEXT_FBLK_def PREV_FBLK_def WSIZE_def)

lemma insert_lifo:
  assumes idx: "idx = bucket_index s bp idx0" "0 \<le> idx" "idx < LISTS"
      "length (free_lists s) = nat LISTS" "\<not> idx > 7"
    and wf: "dll (mem s) NULL (get_list s idx) xs" "bp \<noteq> NULL" "links_apart (bp # xs)"
  shows "\<exists>s'. mm_insert_fblock s bp idx0 = Some s' \<and>
           dll (mem s') NULL (get_list s' idx) (bp # xs) \<and>
           (\<forall>j. j \<noteq> idx \<and> 0 \<le> j \<longrightarrow> get_list s' j = get_list s j) \<and>
           (\<forall>a. a \<notin> link_words (bp # xs) \<longrightarrow> mem s' a = mem s a)"
proof -
  define h where "h = get_list s idx"
  define M where "M = (if h \<noteq> NULL then (mem s)(bp := h, h + 8 := bp, bp + 8 := NULL)
              else (mem s)(bp := NULL, bp + 8 := NULL))"
  define s' where "s' = set_list (s\<lparr>mem := M\<rparr>) idx bp"
  have len: "nat idx < length (free_lists s)" using idx by (simp add: LISTS_def)
  have run: "mm_insert_fblock s bp idx0 = Some s'"
    using idx(1,5)
    by (simp add: mm_insert_fblock_def bucket_index_def LISTS_def Let_def s'_def M_def h_def
        put_def PUT_def NEXT_FBLK_def PREV_FBLK_def WSIZE_def set_list_def get_list_def NULL_def)
  have d: "dll M NULL bp (bp # xs)"
    unfolding M_def using dll_push [OF wf [folded h_def]] .
  have hx: "h \<noteq> NULL \<Longrightarrow> h \<in> set xs"
    using wf(1) [folded h_def] by (cases xs) auto
  have fr: "a \<notin> link_words (bp # xs) \<Longrightarrow> M a = mem s a" for a
    using hx by (auto simp: M_def link_words_iff)
  have "dll (mem s') NULL (get_list s' idx) (bp # xs)"
    using d len idx(2) by (simp add: s'_def set_list_def get_list_def)
  moreover have "\<forall>j. j \<noteq> idx \<and> 0 \<le> j \<longrightarrow> get_list s' j = get_list s j"
    using idx(2) by (auto simp add: s'_def set_list_def get_list_def)
  moreover have "\<forall>a. a \<notin> link_words (bp # xs) \<longrightarrow> mem s' a = mem s a"
    using fr by (simp add: s'_def set_list_def)
  ultimately show ?thesis using run by blast
qed

lemma insert_ordered:
  assumes idx: "idx = bucket_index s bp idx0" "0 \<le> idx" "idx < LISTS"
      "length (free_lists s) = nat LISTS" "idx > 7"
    and wf: "dll (mem s) NULL (get_list s idx) xs" "bp \<noteq> NULL" "links_apart (bp # xs)"
      "sorted xs"
  shows "\<exists>s'. mm_insert_fblock s bp idx0 = Some s' \<and>
           dll (mem s') NULL (get_list s' idx) (insort bp xs) \<and>
           (\<forall>j. j \<noteq> idx \<and> 0 \<le> j \<longrightarrow> get_list s' j = get_list s j) \<and>
           (\<forall>a. a \<notin> link_words (bp # xs) \<longrightarrow> mem s' a = mem s a)"
proof (cases xs)
  case Nil
  define M where "M = (mem s)(bp := NULL, bp + 8 := NULL)"
  define s' where "s' = set_list (s\<lparr>mem := M\<rparr>) idx bp"
  have len: "nat idx < length (free_lists s)" using idx by (simp add: LISTS_def)
  have h: "get_list s idx = NULL" using wf(1) Nil by simp
  have run: "mm_insert_fblock s bp idx0 = Some s'"
    using idx(1,5) h
    by (simp add: mm_insert_fblock_def bucket_index_def LISTS_def Let_def s'_def M_def
        put_def PUT_def NEXT_FBLK_def PREV_FBLK_def WSIZE_def set_list_def)
  have "dll M NULL bp [bp]"
    using wf(2) by (simp add: M_def GET_def NEXT_FBLK_def PREV_FBLK_def WSIZE_def)
  then have "dll (mem s') NULL (get_list s' idx) (insort bp xs)"
    using len idx(2) Nil by (simp add: s'_def set_list_def get_list_def)
  moreover have "\<forall>j. j \<noteq> idx \<and> 0 \<le> j \<longrightarrow> get_list s' j = get_list s j"
    using idx(2) by (auto simp add: s'_def set_list_def get_list_def)
  moreover have "\<forall>a. a \<notin> link_words (bp # xs) \<longrightarrow> mem s' a = mem s a"
    by (auto simp: s'_def set_list_def M_def link_words_iff)
  ultimately show ?thesis using run by blast
next
  case (Cons x ys)
  have len: "nat idx < length (free_lists s)" using idx by (simp add: LISTS_def)
  from wf(1) Cons have h: "get_list s idx = x" "x \<noteq> NULL" "mem s (x + 8) = NULL"
    and tl: "dll (mem s) x (mem s x) ys"
    by (simp_all add: GET_def NEXT_FBLK_def PREV_FBLK_def WSIZE_def)
  from wf(3) Cons have ne: "bp \<noteq> x" "bp \<notin> set ys" by (auto simp: links_apart_iff)
  show ?thesis
  proof (cases "bp < x")
    case True
    text \<open>The block goes in front of the head.\<close>
    have nw: "\<not> (mem s x \<noteq> NULL \<and> mem s x < bp)"
    proof (cases ys)
      case Nil
      with tl show ?thesis by simp
    next
      case (Cons y ys')
      with tl have "mem s x = y" by simp
      moreover have "x \<le> y" using wf(4) \<open>xs = x # ys\<close> Cons by simp
      ultimately show ?thesis using True by auto
    qed
    have walk: "insert_walk (mem s) bp x (mem s x) = Some (x, mem s x)"
      using nw by (subst insert_walk.simps) auto
    define M where "M = (mem s)(bp := x, x + 8 := bp, bp + 8 := NULL)"
    define s' where "s' = set_list (s\<lparr>mem := M\<rparr>) idx bp"
    have run: "mm_insert_fblock s bp idx0 = Some s'"
      using idx(1,5) h walk True
      by (simp add: mm_insert_fblock_def bucket_index_def LISTS_def Let_def s'_def M_def
          put_def PUT_def GET_def NEXT_FBLK_def PREV_FBLK_def WSIZE_def set_list_def)
    have "dll M NULL bp (bp # xs)"
      using dll_push [OF wf(1-3)] h by (simp add: M_def)
    moreover have "insort bp xs = bp # xs"
      using True wf(4) Cons by (intro insort_is_Cons) auto
    ultimately have "dll (mem s') NULL (get_list s' idx) (insort bp xs)"
      using len idx(2) by (simp add: s'_def set_list_def get_list_def)
    moreover have "\<forall>j. j \<noteq> idx \<and> 0 \<le> j \<longrightarrow> get_list s' j = get_list s j"
      using idx(2) by (auto simp add: s'_def set_list_def get_list_def)
    moreover have "\<forall>a. a \<notin> link_words (bp # xs) \<longrightarrow> mem s' a = mem s a"
      using Cons by (auto simp: s'_def set_list_def M_def link_words_iff)
    ultimately show ?thesis using run by blast
  next
    case False
    with ne have gt: "x < bp" by auto
    have d: "dll (mem s) NULL x (x # ys)" using wf(1) Cons h by simp
    from insert_walk_sorted [OF d wf(4) [unfolded Cons] gt ne(2)]
    obtain as c zs where r: "x # ys = as @ c # zs"
      "insert_walk (mem s) bp x (mem s x) = Some (c, hd0 zs)" "c < bp" "\<forall>z \<in> set zs. bp < z"
      by blast
    define M where "M = (if hd0 zs = NULL then (mem s)(bp := NULL, bp + 8 := c, c := bp)
              else (mem s)(bp := hd0 zs, bp + 8 := c, c := bp, hd0 zs + 8 := bp))"
    define s' where "s' = s\<lparr>mem := M\<rparr>"
    have hz: "hd0 zs \<noteq> NULL \<Longrightarrow> hd0 zs \<in> set zs"
      by (cases zs) (auto simp: hd0_def NULL_def)
    have hzlt: "hd0 zs \<noteq> NULL \<Longrightarrow> bp < hd0 zs"
      using hz r(4) by auto
    have nlt: "\<not> bp < c" using r(3) by auto
    have run: "mm_insert_fblock s bp idx0 = Some s'"
      using idx(1,5) h r(2,3) nlt hzlt
      by (simp add: mm_insert_fblock_def bucket_index_def LISTS_def Let_def s'_def M_def
          put_def PUT_def GET_def NEXT_FBLK_def PREV_FBLK_def WSIZE_def)
    have xs: "xs = as @ c # zs" using Cons r(1) by simp
    have "dll M NULL x (as @ c # bp # zs)"
      unfolding M_def
      using dll_splice [OF d [unfolded r(1)] wf(2) wf(3) [unfolded xs]] .
    moreover have "insort bp xs = as @ c # bp # zs"
      unfolding xs using wf(4) [unfolded xs] r(3,4) by (rule insort_between)
    ultimately have "dll (mem s') NULL (get_list s' idx) (insort bp xs)"
      using h by (simp add: s'_def get_list_def)
    moreover have "\<forall>j. j \<noteq> idx \<and> 0 \<le> j \<longrightarrow> get_list s' j = get_list s j"
      by (simp add: s'_def get_list_def)
    moreover have "\<forall>a. a \<notin> link_words (bp # xs) \<longrightarrow> mem s' a = mem s a"
      using hz by (auto simp: s'_def M_def link_words_iff xs)
    ultimately show ?thesis using run by blast
  qed
qed

section \<open>Removal from a bucket\<close>

lemma dll_mid:
  "dll m p h (as @ bp # zs) \<Longrightarrow>
   m (bp + 8) = (if as = [] then p else last as) \<and> m bp = hd0 zs \<and> bp \<noteq> NULL"
proof (induction as arbitrary: p h)
  case Nil
  then show ?case
    by (cases zs) (auto simp: hd0_def GET_def NEXT_FBLK_def PREV_FBLK_def WSIZE_def)
next
  case (Cons a as)
  then have "dll m a (m a) (as @ bp # zs)"
    by (simp add: GET_def NEXT_FBLK_def)
  from Cons.IH [OF this] show ?case by (cases as) auto
qed

lemma hd0_in: "hd0 zs \<noteq> NULL \<Longrightarrow> hd0 zs \<in> set zs"
  by (cases zs) (auto simp: hd0_def NULL_def)

lemma dll_unlink:
  assumes "dll m p h (as @ bp # zs)" "links_apart (as @ bp # zs)"
    "p \<noteq> NULL \<longrightarrow> p \<notin> set (as @ bp # zs) \<and> (\<forall>y \<in> set (as @ bp # zs). y + 8 \<noteq> p)"
  shows "dll (unlink m (if as = [] then p else last as) (hd0 zs)) p
           (if as = [] then hd0 zs else h) (as @ zs)"
  using assms
proof (induction as arbitrary: p h)
  case Nil
  define M where "M = unlink m p (hd0 zs)"
  from Nil(1) have tl: "dll m bp (m bp) zs"
    by (simp add: GET_def NEXT_FBLK_def)
  have nn: "NULL \<notin> set zs" using tl by (rule dll_nonnull)
  show ?case
  proof (cases zs)
    case zNil: Nil
    then show ?thesis by (simp add: hd0_def)
  next
    case (Cons z zs')
    then have z: "hd0 zs = z" "z \<noteq> NULL" and tl': "dll m z (m z) zs'"
      using tl nn by (auto simp: hd0_def GET_def NEXT_FBLK_def)
    from Nil(2) Cons have ap: "distinct (z # zs')" "\<And>y. y \<in> set zs' \<Longrightarrow> y + 8 \<noteq> z \<and> z + 8 \<noteq> y"
      by (auto simp: links_apart_iff)
    from Nil(3) Cons have pp: "p \<noteq> NULL \<Longrightarrow> p \<noteq> z \<and> z + 8 \<noteq> p"
      "\<And>y. p \<noteq> NULL \<Longrightarrow> y \<in> set zs' \<Longrightarrow> y \<noteq> p \<and> y + 8 \<noteq> p"
      by auto
    have vals: "M (z + 8) = p" "M z = m z"
      using z pp(1) by (auto simp: M_def unlink_def NULL_def)
    have "dll M z (m z) zs'"
      using tl'
    proof (rule dll_frame)
      fix x assume x: "x \<in> set zs'"
      then have "x \<noteq> z" using ap(1) by auto
      then show "M x = m x \<and> M (x + 8) = m (x + 8)"
        using ap(2) [OF x] pp(2) [OF _ x] z by (auto simp: M_def unlink_def)
    qed
    then have "dll M p z (z # zs')"
      using z vals by (simp add: GET_def NEXT_FBLK_def PREV_FBLK_def WSIZE_def)
    then show ?thesis using Cons z by (simp add: M_def)
  qed
next
  case (Cons a as)
  define pre where "pre = (if as = [] then a else last as)"
  define M where "M = unlink m pre (hd0 zs)"
  from Cons.prems(1) have a: "h = a" "a \<noteq> NULL" "m (a + 8) = p"
    and tl: "dll m a (m a) (as @ bp # zs)"
    by (simp_all add: GET_def NEXT_FBLK_def PREV_FBLK_def WSIZE_def)
  from Cons.prems(2) have ap': "links_apart (as @ bp # zs)"
    and ap: "a \<notin> set (as @ bp # zs)" "\<And>y. y \<in> set (as @ bp # zs) \<Longrightarrow> y + 8 \<noteq> a \<and> a + 8 \<noteq> y"
    by (auto simp: links_apart_iff)
  have ih: "dll M a (if as = [] then hd0 zs else m a) (as @ zs)"
    unfolding M_def pre_def
    using Cons.IH [OF tl ap'] ap by auto
  have pre_in: "pre = a \<or> pre \<in> set as" by (auto simp: pre_def)
  have pre_nn: "pre \<noteq> NULL"
    using a(2) dll_nonnull [OF tl] pre_in by (auto simp: pre_def)
  have hz: "hd0 zs \<noteq> NULL \<Longrightarrow> hd0 zs \<noteq> a \<and> hd0 zs + 8 \<noteq> a \<and> a + 8 \<noteq> hd0 zs"
    using hd0_in [of zs] ap by auto
  have pa: "a + 8 \<noteq> pre" using pre_in ap(2) [of pre] by auto
  have M8: "M (a + 8) = m (a + 8)"
    using pa hz by (auto simp: M_def unlink_def)
  have Ma: "M a = (if as = [] then hd0 zs else m a)"
  proof (cases "as = []")
    case True
    then have "pre = a" by (simp add: pre_def)
    then show ?thesis using True hz a(2) by (auto simp: M_def unlink_def)
  next
    case False
    then have "pre \<in> set as" by (simp add: pre_def)
    then have "pre \<noteq> a" using ap(1) by auto
    then show ?thesis using False hz by (auto simp: M_def unlink_def)
  qed
  have "dll M p a (a # as @ zs)"
    using ih a M8 Ma by (simp add: GET_def NEXT_FBLK_def PREV_FBLK_def WSIZE_def)
  then show ?case by (simp add: M_def pre_def a(1))
qed

lemma mm_remove_fblock_unlink:
  "mm_remove_fblock s bp idx0 =
     (let pre = mem s (bp + 8); suc = mem s bp;
          s1 = s\<lparr>mem := unlink (mem s) pre suc\<rparr>
      in if pre = NULL then set_list s1 (bucket_index s bp idx0) suc else s1)"
  by (auto simp: mm_remove_fblock_def unlink_def Let_def bucket_index_def put_def PUT_def GET_def
      NEXT_FBLK_def PREV_FBLK_def WSIZE_def set_list_def)

lemma remove_dll:
  assumes idx: "idx = bucket_index s bp idx0" "0 \<le> idx" "idx < LISTS"
      "length (free_lists s) = nat LISTS"
    and wf: "dll (mem s) NULL (get_list s idx) xs" "bp \<in> set xs" "links_apart xs"
  shows "dll (mem (mm_remove_fblock s bp idx0)) NULL (get_list (mm_remove_fblock s bp idx0) idx)
           (remove1 bp xs) \<and>
         (\<forall>j. j \<noteq> idx \<and> 0 \<le> j \<longrightarrow> get_list (mm_remove_fblock s bp idx0) j = get_list s j) \<and>
         (\<forall>a. a \<notin> link_words (remove1 bp xs) \<longrightarrow>
              mem (mm_remove_fblock s bp idx0) a = mem s a)"
proof -
  from wf(2) obtain as zs where xs: "xs = as @ bp # zs" and nas: "bp \<notin> set as"
    by (auto dest: split_list_first)
  have rm: "remove1 bp xs = as @ zs" using xs nas by (simp add: remove1_append)
  define pre where "pre = (if as = [] then NULL else last as)"
  have mid: "mem s (bp + 8) = pre" "mem s bp = hd0 zs"
    using dll_mid [OF wf(1) [unfolded xs]] by (simp_all add: pre_def)
  have nn: "NULL \<notin> set xs" using wf(1) by (rule dll_nonnull)
  have pre0: "(pre = NULL) = (as = [])"
  proof (cases "as = []")
    case True
    then show ?thesis by (simp add: pre_def)
  next
    case False
    then have "last as \<in> set xs" using xs by simp
    then have "last as \<noteq> NULL" using nn by metis
    then show ?thesis using False by (simp add: pre_def)
  qed
  have len: "nat idx < length (free_lists s)" using idx by (simp add: LISTS_def)
  define M where "M = unlink (mem s) pre (hd0 zs)"
  have d: "dll M NULL (if as = [] then hd0 zs else get_list s idx) (as @ zs)"
    unfolding M_def pre_def
    using dll_unlink [OF wf(1) [unfolded xs] wf(3) [unfolded xs]] by simp
  have fr: "a \<notin> link_words (as @ zs) \<Longrightarrow> M a = mem s a" for a
  proof -
    assume a: "a \<notin> link_words (as @ zs)"
    have "pre \<noteq> NULL \<Longrightarrow> pre \<in> set (as @ zs)"
      by (auto simp: pre_def split: if_splits)
    moreover have "hd0 zs \<noteq> NULL \<Longrightarrow> hd0 zs \<in> set (as @ zs)"
      using hd0_in [of zs] by auto
    ultimately show ?thesis
      using a by (auto simp: M_def unlink_def link_words_iff)
  qed
  show ?thesis
  proof (cases "as = []")
    case True
    then have s': "mm_remove_fblock s bp idx0 = set_list (s\<lparr>mem := M\<rparr>) idx (hd0 zs)"
      using mid pre0 idx(1) by (simp add: mm_remove_fblock_unlink M_def Let_def)
    show ?thesis
      unfolding s' rm using d True len idx(2) fr
      by (auto simp: set_list_def get_list_def)
  next
    case False
    then have s': "mm_remove_fblock s bp idx0 = s\<lparr>mem := M\<rparr>"
      using mid pre0 by (simp add: mm_remove_fblock_unlink M_def Let_def)
    show ?thesis
      unfolding s' rm using d False fr
      by (auto simp: get_list_def)
  qed
qed

section \<open>The search of the directory\<close>

lemma find_fit_list_dll:
  "dll m p h xs \<Longrightarrow>
   find_fit_list m asize h =
     Some (case List.find (\<lambda>bp. asize \<le> GET_SIZE m (HDRP bp)) xs of
             None \<Rightarrow> NULL | Some bp \<Rightarrow> bp)"
proof (induction xs arbitrary: p h)
  case Nil
  then show ?case by (subst find_fit_list.simps) simp
next
  case (Cons x xs)
  then have x: "h = x" "x \<noteq> NULL" and tl: "dll m x (GET m x) xs"
    by (simp_all add: NEXT_FBLK_def)
  show ?case
    using x Cons.IH [OF tl]
    by (subst find_fit_list.simps) simp
qed

lemma find_Some_nonnull:
  "NULL \<notin> set xs \<Longrightarrow> List.find P xs = Some bp \<Longrightarrow> bp \<noteq> NULL \<and> bp \<in> set xs"
  by (induction xs) (auto split: if_splits)

lemma find_map_Pair:
  "List.find (\<lambda>(i, bp). P bp) (map (Pair k) xs) = map_option (Pair k) (List.find P xs)"
  by (induction xs) auto

lemma find_app:
  "List.find P (xs @ ys) = (case List.find P xs of None \<Rightarrow> List.find P ys | Some x \<Rightarrow> Some x)"
  by (induction xs) auto

lemma upto_first: "i \<le> j \<Longrightarrow> [i..j] = i # [i + 1..j]"
  by (simp add: upto_rec1)

lemma find_fit_from_first_fit:
  assumes "\<forall>i. idx \<le> i \<and> i < LISTS \<longrightarrow> dll (mem s) NULL (get_list s i) (B i)"
  shows "0 \<le> idx \<Longrightarrow> find_fit_from s asize idx =
     Some (case first_fit (mem s) asize B idx of
             None \<Rightarrow> (s, NULL)
           | Some (i, bp) \<Rightarrow> (mm_remove_fblock s bp i, bp))"
  using assms
proof (induction s asize idx rule: find_fit_from.induct)
  case (1 s asize idx)
  let ?P = "\<lambda>bp. asize \<le> GET_SIZE (mem s) (HDRP bp)"
  show ?case
  proof (cases "idx < LISTS")
    case False
    then have "[idx..LISTS - 1] = []" by simp
    then have "first_fit (mem s) asize B idx = None"
      by (simp add: first_fit_def search_order_def)
    then show ?thesis using False
      by (subst find_fit_from.simps) simp
  next
    case True
    then have d: "dll (mem s) NULL (get_list s idx) (B idx)" using "1.prems" by simp
    have nn: "NULL \<notin> set (B idx)" using d by (rule dll_nonnull)
    have ffl: "find_fit_list (mem s) asize (get_list s idx) =
        Some (case List.find ?P (B idx) of None \<Rightarrow> NULL | Some bp \<Rightarrow> bp)"
      using d by (rule find_fit_list_dll)
    have so: "search_order B idx = map (Pair idx) (B idx) @ search_order B (idx + 1)"
      using True by (simp add: search_order_def upto_first)
    have fm: "List.find (\<lambda>(i, bp). ?P bp) (map (Pair idx) (B idx)) =
        map_option (Pair idx) (List.find ?P (B idx))"
      by (rule find_map_Pair)
    show ?thesis
    proof (cases "List.find ?P (B idx)")
      case None
      then have ff: "first_fit (mem s) asize B idx = first_fit (mem s) asize B (idx + 1)"
        by (simp add: first_fit_def so find_app fm)
      have "find_fit_from s asize idx = find_fit_from s asize (idx + 1)"
        using True ffl None by (subst find_fit_from.simps) simp
      also have "\<dots> = Some (case first_fit (mem s) asize B (idx + 1) of
             None \<Rightarrow> (s, NULL) | Some (i, bp) \<Rightarrow> (mm_remove_fblock s bp i, bp))"
        using "1.IH" [OF True, of NULL] ffl None "1.prems" by simp
      finally show ?thesis using ff by simp
    next
      case (Some bp)
      then have bp: "bp \<noteq> NULL" using find_Some_nonnull [OF nn] by blast
      have ff: "first_fit (mem s) asize B idx = Some (idx, bp)"
        using Some by (simp add: first_fit_def so find_app fm)
      show ?thesis
        using True ffl Some bp ff by (subst find_fit_from.simps) simp
    qed
  qed
qed

section \<open>A failing allocation changes nothing\<close>

lemma find_fit_from_NULL:
  "find_fit_from s asize idx = Some (s1, NULL) \<Longrightarrow> s1 = s"
proof (induction s asize idx rule: find_fit_from.induct)
  case (1 s asize idx)
  show ?case
  proof (cases "idx < LISTS")
    case False
    with "1.prems" show ?thesis
      by (subst (asm) find_fit_from.simps) simp
  next
    case True
    show ?thesis
    proof (cases "find_fit_list (mem s) asize (get_list s idx)")
      case None
      with True "1.prems" show ?thesis
        by (subst (asm) find_fit_from.simps) simp
    next
      case (Some bp)
      show ?thesis
      proof (cases "bp = NULL")
        case bT: True
        from True Some bT "1.prems"
        have "find_fit_from s asize (idx + 1) = Some (s1, NULL)"
          by (subst (asm) find_fit_from.simps) simp
        then show ?thesis
          using "1.IH" [OF True Some] bT by simp
      next
        case bF: False
        with True Some "1.prems" show ?thesis
          by (subst (asm) find_fit_from.simps) simp
      qed
    qed
  qed
qed

lemma extend_heap_NULL:
  assumes "extend_heap s words = (s1, NULL)" "mem_brk s \<noteq> NULL"
  shows "s1 = s"
proof -
  define sz where "sz = (if words mod 2 \<noteq> 0 then (words + 1) * WSIZE else words * WSIZE)"
  obtain s' p where ms: "mem_sbrk s sz = (s', p)"
    by (cases "mem_sbrk s sz")
  from assms(1) have "(case mem_sbrk s sz of (s1, bp) \<Rightarrow>
        if bp = - 1 then (s1, NULL)
        else (put (put (put s1 (HDRP bp) (PACK sz 0))
                (FTRP (mem (put s1 (HDRP bp) (PACK sz 0))) bp) (PACK sz 0))
              (HDRP (NEXT_BLKP (mem (put (put s1 (HDRP bp) (PACK sz 0))
                (FTRP (mem (put s1 (HDRP bp) (PACK sz 0))) bp) (PACK sz 0))) bp)) (PACK 0 1), bp))
      = (s1, NULL)"
    unfolding extend_heap_def Let_def sz_def .
  with ms have r: "(p = - 1 \<and> s1 = s') \<or> p = NULL"
    by (auto split: if_splits)
  have m1: "unat (- 1 :: 64 word) = 2 ^ 64 - 1"
    by (simp add: unsigned_minus_1_eq_mask mask_eq_exp_minus_1)
  have lt: "unat (mem_max_addr s) < 2 ^ 64"
    using unsigned_less [of "mem_max_addr s", where 'a = nat] by simp
  show ?thesis
  proof (cases "unat (mem_brk s) + unat sz > unat (mem_max_addr s)")
    case True
    with ms have "s' = s" "p = - 1" by (simp_all add: mem_sbrk_def)
    with r show ?thesis by (auto simp: NULL_def)
  next
    case False
    with ms have s': "s' = s\<lparr>mem_brk := mem_brk s + sz\<rparr>" and p: "p = mem_brk s"
      by (auto simp: mem_sbrk_def)
    from r p assms(2) have "mem_brk s = - 1" "s1 = s'" by auto
    with False m1 lt have "unat sz = 0" by simp
    then have "sz = 0" by (simp add: unat_eq_zero)
    with s' \<open>s1 = s'\<close> show ?thesis by simp
  qed
qed

lemma mm_malloc_NULL:
  assumes "mm_malloc s sz = Some (s1, NULL)" "mem_brk s \<noteq> NULL"
  shows "s1 = s"
proof (cases "sz = 0")
  case True
  with assms show ?thesis by (simp add: mm_malloc_def)
next
  case False
  define asize where "asize = adjusted_size sz"
  from assms(1) False obtain s0 bp where ff: "find_fit s asize = Some (s0, bp)"
    by (auto simp: mm_malloc_def Let_def asize_def adjusted_size_def split: option.splits)
  show ?thesis
  proof (cases "bp = NULL")
    case bF: False
    with assms(1) False ff show ?thesis
      by (auto simp: mm_malloc_def Let_def asize_def adjusted_size_def split: option.splits)
  next
    case bT: True
    with ff have s0: "s0 = s"
      using find_fit_from_NULL by (simp add: find_fit_def)
    obtain s2 bp2 where eh: "extend_heap s (max asize CHUNKSIZE div WSIZE) = (s2, bp2)"
      by (cases "extend_heap s (max asize CHUNKSIZE div WSIZE)")
    show ?thesis
    proof (cases "bp2 = NULL")
      case True
      with eh assms(2) have "s2 = s" using extend_heap_NULL by blast
      with assms(1) False ff bT s0 eh True show ?thesis
        by (simp add: mm_malloc_def Let_def asize_def adjusted_size_def)
    next
      case e: False
      with assms(1) False ff bT s0 eh show ?thesis
        by (auto simp: mm_malloc_def Let_def asize_def adjusted_size_def split: option.splits)
    qed
  qed
qed

lemma neg_eq_False: "\<not> P \<Longrightarrow> P = False"
  by simp

section \<open>Sizes and address ranges\<close>

lemma fifteen_mask: "(15 :: 64 word) = mask 4"
  by (simp add: mask_eq_exp_minus_1)

lemma m16: "(- 16 :: 64 word) = NOT (mask 4)"
  by (simp add: mask_eq_exp_minus_1)

lemma low_bits_clear:
  "(x :: 64 word) AND mask 4 = 0 \<Longrightarrow> n < 4 \<Longrightarrow> \<not> bit x n"
proof
  assume a: "x AND mask 4 = 0" "n < 4" "bit x n"
  from a(2,3) have "bit (x AND mask 4) n" by (simp add: bit_simps)
  with a(1) show False by simp
qed

lemma size_aligned: "(x AND - 16) AND 15 = (0 :: 64 word)"
  unfolding m16 fifteen_mask by (rule bit_word_eqI) (simp add: bit_simps)

lemma aligned_size: "x AND 15 = 0 \<Longrightarrow> x AND - 16 = (x :: 64 word)"
  unfolding m16 fifteen_mask
  by (rule bit_word_eqI) (auto simp: bit_simps dest: low_bits_clear)

lemma aligned_pack: "x AND 15 = 0 \<Longrightarrow> (x OR 1) AND - 16 = (x :: 64 word)"
  unfolding m16 fifteen_mask
  by (rule bit_word_eqI) (auto simp: bit_simps dest: low_bits_clear)

lemma aligned_push: "x AND 15 = 0 \<Longrightarrow> (x :: 64 word) = push_bit 4 (drop_bit 4 x)"
  unfolding fifteen_mask
proof (rule bit_word_eqI)
  fix n
  assume a: "x AND mask 4 = 0"
  show "bit x n = bit (push_bit 4 (drop_bit 4 x)) n"
  proof (cases "n < 4")
    case True
    with a show ?thesis using low_bits_clear [of x n] by (simp add: bit_simps)
  next
    case False
    then have "4 + (n - 4) = n" by simp
    with False show ?thesis by (auto simp: bit_simps dest: bit_imp_le_length)
  qed
qed

lemma aligned_add:
  "a AND 15 = 0 \<Longrightarrow> b AND 15 = 0 \<Longrightarrow> (a + b) AND 15 = (0 :: 64 word)"
proof -
  assume "a AND 15 = 0" "b AND 15 = 0"
  then have "a + b = push_bit 4 (drop_bit 4 a) + push_bit 4 (drop_bit 4 b)"
    using aligned_push by metis
  also have "\<dots> = push_bit 4 (drop_bit 4 a + drop_bit 4 b)"
    by (simp add: push_bit_add)
  finally have "a + b = push_bit 4 (drop_bit 4 a + drop_bit 4 b)" .
  moreover have "push_bit 4 w AND mask 4 = 0" for w :: "64 word"
    by (rule bit_word_eqI) (simp add: bit_simps)
  ultimately show ?thesis by (simp add: fifteen_mask)
qed

lemma GET_SIZE_aligned: "GET_SIZE m p AND 15 = 0"
  by (simp add: GET_SIZE_def DSIZE_def WSIZE_def size_aligned)


lemma GET_SIZE_PACK_1:
  "x AND 15 = 0 \<Longrightarrow> GET_SIZE (m(p := PACK x 1)) p = x"
  by (simp add: GET_SIZE_def GET_def PACK_def DSIZE_def WSIZE_def aligned_pack)

lemma unat_plus_64:
  "unat x + unat y < 2 ^ 64 \<Longrightarrow> unat (x + y :: 64 word) = unat x + unat y"
  using unat_add_lem [of x y] by simp

lemma within_shift:
  "a - hp < csize \<Longrightarrow> unat lsize + unat csize < 2 ^ 64 \<Longrightarrow>
   a - (hp - lsize) < lsize + (csize :: 64 word)"
proof -
  assume a: "a - hp < csize" "unat lsize + unat csize < 2 ^ 64"
  have e: "a - (hp - lsize) = (a - hp) + lsize" by simp
  have lt: "unat (a - hp) < unat csize" using a(1) by (simp add: word_less_nat_alt)
  then have "unat (a - hp) + unat lsize < 2 ^ 64" using a(2) by simp
  then have "unat ((a - hp) + lsize) = unat (a - hp) + unat lsize" by (rule unat_plus_64)
  moreover have "unat (lsize + csize) = unat lsize + unat csize"
    using a(2) by (rule unat_plus_64)
  ultimately show ?thesis
    unfolding e using lt by (simp add: word_less_nat_alt)
qed

lemma eq_TrueI': "P \<Longrightarrow> P = True"
  by simp

lemma aligned_not_8: "x AND 15 = 0 \<Longrightarrow> (x :: 64 word) \<noteq> 8"
  by auto

lemma unat_sub_64: "y \<le> x \<Longrightarrow> unat (x - y :: 64 word) = unat x - unat y"
  by (rule unat_sub)

section \<open>The directory as a whole\<close>

lemma valid_index: "(i \<in> set [0..LISTS - 1]) = (0 \<le> i \<and> i < LISTS)"
  by (auto simp: LISTS_def)

lemma listed_iff: "(x \<in> listed B) = (\<exists>i. 0 \<le> i \<and> i < LISTS \<and> x \<in> set (B i))"
  by (auto simp: listed_def valid_index)

lemma wf_dir_bucket:
  assumes "wf_dir s B" "0 \<le> i" "i < LISTS"
  shows "dll (mem s) NULL (get_list s i) (B i)" "links_apart (B i)" "7 < i \<Longrightarrow> sorted (B i)"
    "length (free_lists s) = nat LISTS" "distinct (B i)"
proof -
  from assms show d: "dll (mem s) NULL (get_list s i) (B i)" and "distinct (B i)"
    and "7 < i \<Longrightarrow> sorted (B i)" and "length (free_lists s) = nat LISTS"
    by (auto simp: wf_dir_def valid_index)
  have l: "x \<in> listed B" if "x \<in> set (B i)" for x
    using that assms(2,3) listed_iff by blast
  from assms(1) have "\<forall>x \<in> listed B. \<forall>y \<in> listed B. x + 8 \<noteq> y"
    by (simp add: wf_dir_def PREV_FBLK_def NEXT_FBLK_def WSIZE_def)
  with l have "\<forall>x \<in> set (B i). \<forall>y \<in> set (B i). x + 8 \<noteq> y"
    by blast
  with \<open>distinct (B i)\<close> show "links_apart (B i)"
    by (simp add: links_apart_iff)
qed

lemma wf_dir_apart:
  assumes "wf_dir s B" "x \<in> listed B" "y \<in> listed B"
  shows "x + 8 \<noteq> y"
  using assms by (auto simp: wf_dir_def PREV_FBLK_def NEXT_FBLK_def WSIZE_def)

lemma wf_dir_disjoint:
  assumes "wf_dir s B" "0 \<le> i" "i < LISTS" "0 \<le> j" "j < LISTS" "i \<noteq> j"
    "x \<in> set (B i)" "y \<in> set (B j)"
  shows "x \<noteq> y"
proof -
  from assms(1) have "\<forall>i \<in> set [0..LISTS - 1]. \<forall>j \<in> set [0..LISTS - 1].
         i \<noteq> j \<longrightarrow> set (B i) \<inter> set (B j) = {}"
    by (simp add: wf_dir_def)
  moreover have "i \<in> set [0..LISTS - 1]" "j \<in> set [0..LISTS - 1]"
    using assms(2-5) by (simp_all add: valid_index)
  ultimately have "set (B i) \<inter> set (B j) = {}"
    using assms(6) by blast
  with assms(7,8) show ?thesis by blast
qed

lemma length_remove:
  "length (free_lists (mm_remove_fblock s bp idx0)) = length (free_lists s)"
  by (simp add: mm_remove_fblock_unlink Let_def set_list_def)

lemma dir_remove:
  assumes wf: "wf_dir s B" and i: "0 \<le> i" "i < LISTS" "i = bucket_index s nb idx0"
    and nb: "nb \<in> set (B i)"
  shows "wf_dir (mm_remove_fblock s nb idx0) (B(i := remove1 nb (B i)))"
    and "\<forall>a. a \<notin> link_words (remove1 nb (B i)) \<longrightarrow> mem (mm_remove_fblock s nb idx0) a = mem s a"
proof -
  define s' where "s' = mm_remove_fblock s nb idx0"
  define B' where "B' = B(i := remove1 nb (B i))"
  note wb = wf_dir_bucket [OF wf]
  from remove_dll [OF i(3,1,2) wb(4) [OF i(1,2)] wb(1) [OF i(1,2)] nb wb(2) [OF i(1,2)]]
  have r1: "dll (mem s') NULL (get_list s' i) (remove1 nb (B i))"
    and r2: "\<And>j. j \<noteq> i \<Longrightarrow> 0 \<le> j \<Longrightarrow> get_list s' j = get_list s j"
    and r3: "\<And>a. a \<notin> link_words (remove1 nb (B i)) \<Longrightarrow> mem s' a = mem s a"
    by (simp_all add: s'_def)
  show "\<forall>a. a \<notin> link_words (remove1 nb (B i)) \<longrightarrow> mem (mm_remove_fblock s nb idx0) a = mem s a"
    using r3 by (simp add: s'_def)
  have sub: "set (B' j) \<subseteq> set (B j)" for j
    using set_remove1_subset [of nb "B i"] by (cases "j = i") (auto simp: B'_def)
  then have lsub: "x \<in> listed B' \<Longrightarrow> x \<in> listed B" for x
    unfolding listed_iff by blast
  have bucket: "dll (mem s') NULL (get_list s' j) (B' j) \<and> distinct (B' j) \<and>
      (7 < j \<longrightarrow> sorted (B' j))" if j: "0 \<le> j" "j < LISTS" for j
  proof (cases "j = i")
    case True
    have "distinct (remove1 nb (B i))"
      using wb(5) [OF i(1,2)] by simp
    moreover have "7 < i \<Longrightarrow> sorted (remove1 nb (B i))"
      using wb(3) [OF i(1,2)] by (rule sorted_remove1)
    ultimately show ?thesis
      using r1 True by (simp add: B'_def)
  next
    case False
    have "dll (mem s') NULL (get_list s j) (B j)"
      using wb(1) [OF j]
    proof (rule dll_frame)
      fix x assume x: "x \<in> set (B j)"
      have xl: "x \<in> listed B" using x j by (auto simp: listed_iff)
      have "x \<notin> link_words (remove1 nb (B i))" "x + 8 \<notin> link_words (remove1 nb (B i))"
      proof -
        have *: "y \<in> listed B \<and> y \<noteq> x" if "y \<in> set (remove1 nb (B i))" for y
        proof -
          from that have yi: "y \<in> set (B i)"
            using set_remove1_subset by fast
          then have "y \<in> listed B" using i(1,2) listed_iff by blast
          moreover have "y \<noteq> x"
            using wf_dir_disjoint [OF wf j i(1,2) False x yi] by simp
          ultimately show ?thesis by simp
        qed
        show "x \<notin> link_words (remove1 nb (B i))"
          using * wf_dir_apart [OF wf _ xl] by (auto simp: link_words_iff)
        show "x + 8 \<notin> link_words (remove1 nb (B i))"
          using * wf_dir_apart [OF wf xl] by (auto simp: link_words_iff)
      qed
      then show "mem s' x = mem s x \<and> mem s' (x + 8) = mem s (x + 8)"
        using r3 by simp
    qed
    then show ?thesis
      using False r2 [OF False j(1)] wb(5) [OF j] wb(3) [OF j]
      by (simp add: B'_def)
  qed
  have dis: "set (B' j) \<inter> set (B' k) = {}"
    if "0 \<le> j" "j < LISTS" "0 \<le> k" "k < LISTS" "j \<noteq> k" for j k
    using wf_dir_disjoint [OF wf that] sub [of j] sub [of k] by blast
  have ap: "PREV_FBLK x \<noteq> NEXT_FBLK y" if "x \<in> listed B'" "y \<in> listed B'" for x y
    using wf lsub [OF that(1)] lsub [OF that(2)] by (simp add: wf_dir_def)
  show "wf_dir (mm_remove_fblock s nb idx0) (B(i := remove1 nb (B i)))"
    unfolding s'_def [symmetric] B'_def [symmetric] wf_dir_def valid_index
    using bucket dis ap wb(4) [OF i(1,2)] by (simp add: s'_def length_remove)
qed

lemma insert_policy:
  assumes "idx = bucket_index s bp idx0" and "0 \<le> idx" and "idx < LISTS"
    and "length (free_lists s) = nat LISTS"
    and "dll (mem s) NULL (get_list s idx) xs" and "bp \<noteq> NULL"
    and "links_apart (bp # xs)" and "7 < idx \<longrightarrow> sorted xs"
  shows "\<exists>s'. mm_insert_fblock s bp idx0 = Some s' \<and>
           dll (mem s') NULL (get_list s' idx) (file_block idx bp xs) \<and>
           (\<forall>j. j \<noteq> idx \<and> 0 \<le> j \<longrightarrow> get_list s' j = get_list s j) \<and>
           (\<forall>a. a \<notin> link_words (bp # xs) \<longrightarrow> mem s' a = mem s a)"
proof (cases "idx > 7")
  case True
  with assms(8) have "sorted xs" by simp
  from insert_ordered [OF assms(1-4) True assms(5-7) this] True
  show ?thesis by (simp add: file_block_def)
next
  case False
  from insert_lifo [OF assms(1-4) False assms(5-7)] False
  show ?thesis by (simp add: file_block_def)
qed

lemma length_insert:
  "mm_insert_fblock s bp idx0 = Some s' \<Longrightarrow> length (free_lists s') = length (free_lists s)"
  unfolding mm_insert_fblock_def Let_def
  by (auto simp: put_def set_list_def split: if_splits option.splits prod.splits)

lemma listed_upd:
  "0 \<le> j \<Longrightarrow> j < LISTS \<Longrightarrow> set ys = insert r (set (B j)) \<Longrightarrow>
   listed (B(j := ys)) = insert r (listed B)"
proof (rule set_eqI)
  fix x
  assume j: "0 \<le> j" "j < LISTS" and ys: "set ys = insert r (set (B j))"
  have "(x \<in> listed (B(j := ys))) =
      (x \<in> set ys \<or> (\<exists>i. i \<noteq> j \<and> 0 \<le> i \<and> i < LISTS \<and> x \<in> set (B i)))"
    unfolding listed_iff using j by (metis fun_upd_apply)
  also have "\<dots> = (x = r \<or> (\<exists>i. 0 \<le> i \<and> i < LISTS \<and> x \<in> set (B i)))"
    unfolding ys using j by (cases "x \<in> set (B j)") auto
  finally show "(x \<in> listed (B(j := ys))) = (x \<in> insert r (listed B))"
    by (simp add: listed_iff)
qed

lemma set_file_block: "set (file_block j r xs) = insert r (set xs)"
  by (simp add: file_block_def set_insort_key)

lemma dir_insert:
  assumes wf: "wf_dir s B" and j: "0 \<le> j" "j < LISTS" "j = bucket_index s r idx0"
    and r: "r \<noteq> NULL" "r \<notin> listed B"
      "\<forall>x \<in> listed B. PREV_FBLK r \<noteq> NEXT_FBLK x \<and> PREV_FBLK x \<noteq> NEXT_FBLK r"
  shows "\<exists>s'. mm_insert_fblock s r idx0 = Some s' \<and>
           wf_dir s' (B(j := file_block j r (B j))) \<and>
           (\<forall>a. a \<notin> link_words (r # B j) \<longrightarrow> mem s' a = mem s a)"
proof -
  define B' where "B' = B(j := file_block j r (B j))"
  note wb = wf_dir_bucket [OF wf]
  have rap: "x \<in> listed B \<Longrightarrow> r \<noteq> x \<and> r + 8 \<noteq> x \<and> x + 8 \<noteq> r" for x
    using r(2,3) by (auto simp: PREV_FBLK_def NEXT_FBLK_def WSIZE_def)
  have inl: "x \<in> set (B k) \<Longrightarrow> 0 \<le> k \<Longrightarrow> k < LISTS \<Longrightarrow> x \<in> listed B" for x k
    using listed_iff by blast
  have la: "links_apart (r # B j)"
    using wb(2) [OF j(1,2)] rap inl [OF _ j(1,2)]
    by (auto simp: links_apart_iff)
  have so: "7 < j \<longrightarrow> sorted (B j)" using wb(3) [OF j(1,2)] by simp
  from insert_policy [OF j(3,1,2) wb(4) [OF j(1,2)] wb(1) [OF j(1,2)] r(1) la so]
  obtain s' where run: "mm_insert_fblock s r idx0 = Some s'"
    and d: "dll (mem s') NULL (get_list s' j) (file_block j r (B j))"
    and hd: "\<And>k. k \<noteq> j \<Longrightarrow> 0 \<le> k \<Longrightarrow> get_list s' k = get_list s k"
    and fr: "\<And>a. a \<notin> link_words (r # B j) \<Longrightarrow> mem s' a = mem s a"
    by blast
  have len: "length (free_lists s') = nat LISTS"
    using length_insert [OF run] wb(4) [OF j(1,2)] by simp
  have rj: "r \<notin> set (B j)" using r(2) inl [OF _ j(1,2)] by blast
  have bucket: "dll (mem s') NULL (get_list s' k) (B' k) \<and> distinct (B' k) \<and>
      (7 < k \<longrightarrow> sorted (B' k))" if k: "0 \<le> k" "k < LISTS" for k
  proof (cases "k = j")
    case True
    have "distinct (file_block j r (B j))"
      using rj wb(5) [OF j(1,2)] by (simp add: file_block_def distinct_insort)
    moreover have "7 < j \<Longrightarrow> sorted (file_block j r (B j))"
      using wb(3) [OF j(1,2)] by (simp add: file_block_def sorted_insort)
    ultimately show ?thesis using d True by (simp add: B'_def)
  next
    case False
    have "dll (mem s') NULL (get_list s k) (B k)"
      using wb(1) [OF k]
    proof (rule dll_frame)
      fix x assume x: "x \<in> set (B k)"
      have xl: "x \<in> listed B" using x k by (rule inl)
      have "y \<in> set (B j) \<Longrightarrow> y \<noteq> x \<and> y + 8 \<noteq> x \<and> x + 8 \<noteq> y" for y
        using wf_dir_disjoint [OF wf k j(1,2) False x, of y]
          wf_dir_apart [OF wf inl [OF _ j(1,2)] xl] wf_dir_apart [OF wf xl inl [OF _ j(1,2)]]
        by auto
      then have "x \<notin> link_words (r # B j)" "x + 8 \<notin> link_words (r # B j)"
        using rap [OF xl] by (auto simp: link_words_iff)
      then show "mem s' x = mem s x \<and> mem s' (x + 8) = mem s (x + 8)"
        using fr by simp
    qed
    then show ?thesis
      using False hd [OF False k(1)] wb(5) [OF k] wb(3) [OF k] by (simp add: B'_def)
  qed
  have sets: "set (B' k) = (if k = j then insert r (set (B j)) else set (B k))" for k
    by (simp add: B'_def set_file_block)
  have dis: "set (B' k) \<inter> set (B' l) = {}"
    if "0 \<le> k" "k < LISTS" "0 \<le> l" "l < LISTS" "k \<noteq> l" for k l
  proof -
    have "x \<in> set (B k) \<Longrightarrow> y \<in> set (B l) \<Longrightarrow> x \<noteq> y" for x y
      using wf_dir_disjoint [OF wf that] by blast
    moreover have "x \<in> set (B k) \<Longrightarrow> x \<noteq> r" "y \<in> set (B l) \<Longrightarrow> y \<noteq> r" for x y
      using rap inl that by blast+
    ultimately show ?thesis using that(5) unfolding sets by auto
  qed
  have lB: "listed B' = insert r (listed B)"
    unfolding B'_def using j(1,2) set_file_block by (rule listed_upd)
  have ap: "PREV_FBLK x \<noteq> NEXT_FBLK y" if "x \<in> listed B'" "y \<in> listed B'" for x y
    using that rap wf_dir_apart [OF wf] unfolding lB
    by (auto simp: PREV_FBLK_def NEXT_FBLK_def WSIZE_def)
  have "wf_dir s' B'"
    unfolding wf_dir_def valid_index using len bucket dis ap by simp
  with run fr show ?thesis unfolding B'_def by blast
qed

section \<open>Coalescing\<close>

lemma wf_dir_frame:
  assumes "wf_dir s B" "\<And>x. x \<in> listed B \<Longrightarrow> m' x = mem s x \<and> m' (x + 8) = mem s (x + 8)"
  shows "wf_dir (s\<lparr>mem := m'\<rparr>) B"
proof -
  have "dll m' NULL (get_list s i) (B i)" if i: "0 \<le> i" "i < LISTS" for i
    using wf_dir_bucket(1) [OF assms(1) i]
  proof (rule dll_frame)
    fix x assume "x \<in> set (B i)"
    then have "x \<in> listed B" using i listed_iff by blast
    then show "m' x = mem s x \<and> m' (x + 8) = mem s (x + 8)" by (rule assms(2))
  qed
  then show ?thesis
    using assms(1) unfolding wf_dir_def valid_index by (simp add: get_list_def)
qed

lemma coalesce_finish:
  assumes wf: "wf_dir t B2" and r: "r \<noteq> NULL" "r \<notin> listed B2"
      "\<forall>x \<in> listed B2. PREV_FBLK r \<noteq> NEXT_FBLK x \<and> PREV_FBLK x \<noteq> NEXT_FBLK r"
    and tot: "msize AND 15 = 0" "mem t (HDRP r) = msize" "mem t ft = msize"
      "j = mm_find_list_idx msize"
    and tg: "\<And>a. a \<in> T \<Longrightarrow> a \<notin> link_words (r # B2 j)" "HDRP r \<in> T" "ft \<in> T"
  shows "\<exists>s'. mm_insert_fblock t r (- 1) = Some s' \<and>
           wf_dir s' (B2(j := file_block j r (B2 j))) \<and>
           mem s' (HDRP r) = msize \<and> mem s' ft = msize \<and>
           (\<forall>a \<in> T. mem s' a = mem t a)"
proof -
  have "GET_SIZE (mem t) (HDRP r) = msize"
    using tot(1,2) by (simp add: GET_SIZE_def GET_def DSIZE_def WSIZE_def aligned_size)
  then have bj: "j = bucket_index t r (- 1)"
    by (simp add: bucket_index_def tot(4))
  have j: "0 \<le> j" "j < LISTS"
    using mm_find_list_idx_range [of msize] by (simp_all add: tot(4) LISTS_def)
  from dir_insert [OF wf j bj r]
  obtain s' where s': "mm_insert_fblock t r (- 1) = Some s'"
    "wf_dir s' (B2(j := file_block j r (B2 j)))"
    "\<And>a. a \<notin> link_words (r # B2 j) \<Longrightarrow> mem s' a = mem t a"
    by blast
  have "\<forall>a \<in> T. mem s' a = mem t a"
    using s'(3) tg(1) by blast
  with s'(1,2) tot(2,3) tg(2,3) show ?thesis by auto
qed

lemma link_words_listed:
  assumes "0 \<le> i" "i < LISTS" "set xs \<subseteq> set (B i)"
    "\<forall>x \<in> listed B. a \<noteq> NEXT_FBLK x \<and> a \<noteq> PREV_FBLK x"
  shows "a \<notin> link_words xs"
proof
  assume "a \<in> link_words xs"
  then obtain x where x: "x \<in> set xs" "a = NEXT_FBLK x \<or> a = PREV_FBLK x"
    by (auto simp: link_words_def)
  with assms(1-3) have "x \<in> listed B" unfolding listed_iff by blast
  with x(2) assms(4) show False by blast
qed

lemma coalesce_remove:
  assumes wf: "wf_dir s B" and i: "i = mm_find_list_idx (GET_SIZE (mem s) (HDRP nb))"
    and nb: "nb \<in> set (B i)"
  shows "wf_dir (mm_remove_fblock s nb (- 1)) (B(i := remove1 nb (B i)))"
    and "\<And>a. \<forall>x \<in> listed B. a \<noteq> NEXT_FBLK x \<and> a \<noteq> PREV_FBLK x \<Longrightarrow>
           mem (mm_remove_fblock s nb (- 1)) a = mem s a"
    and "nb \<notin> listed (B(i := remove1 nb (B i)))"
    and "nb \<noteq> NULL" and "nb \<in> listed B"
    and "\<And>x. x \<in> listed (B(i := remove1 nb (B i))) \<Longrightarrow> x \<in> listed B"
    and "\<forall>x \<in> listed (B(i := remove1 nb (B i))).
           PREV_FBLK nb \<noteq> NEXT_FBLK x \<and> PREV_FBLK x \<noteq> NEXT_FBLK nb"
proof -
  define B' where "B' = B(i := remove1 nb (B i))"
  have vi: "0 \<le> i" "i < LISTS"
    using mm_find_list_idx_range [of "GET_SIZE (mem s) (HDRP nb)"] by (simp_all add: i LISTS_def)
  have bi: "i = bucket_index s nb (- 1)"
    by (simp add: bucket_index_def i)
  note wb = wf_dir_bucket [OF wf]
  show "wf_dir (mm_remove_fblock s nb (- 1)) (B(i := remove1 nb (B i)))"
    by (rule dir_remove(1) [OF wf vi bi nb])
  show "mem (mm_remove_fblock s nb (- 1)) a = mem s a"
    if "\<forall>x \<in> listed B. a \<noteq> NEXT_FBLK x \<and> a \<noteq> PREV_FBLK x" for a
  proof -
    have "a \<notin> link_words (remove1 nb (B i))"
      using set_remove1_subset [of nb "B i"] by (rule link_words_listed [OF vi _ that])
    with dir_remove(2) [OF wf vi bi nb] show ?thesis by blast
  qed
  show in_B: "nb \<in> listed B"
    using nb vi listed_iff by blast
  show sub: "x \<in> listed B" if "x \<in> listed (B(i := remove1 nb (B i)))" for x
  proof -
    from that obtain k where k: "0 \<le> k" "k < LISTS" "x \<in> set ((B(i := remove1 nb (B i))) k)"
      unfolding listed_iff by blast
    then have "x \<in> set (B k)"
      using set_remove1_subset [of nb "B i"] by (cases "k = i") auto
    with k show ?thesis unfolding listed_iff by blast
  qed
  show "nb \<notin> listed (B(i := remove1 nb (B i)))"
  proof
    assume "nb \<in> listed (B(i := remove1 nb (B i)))"
    then obtain k where k: "0 \<le> k" "k < LISTS" "nb \<in> set ((B(i := remove1 nb (B i))) k)"
      unfolding listed_iff by blast
    show False
    proof (cases "k = i")
      case True
      with k(3) wb(5) [OF vi] show False by simp
    next
      case False
      with k(3) have "nb \<in> set (B k)" by simp
      from wf_dir_disjoint [OF wf k(1,2) vi False this nb] show False by simp
    qed
  qed
  show "nb \<noteq> NULL"
    using dll_nonnull [OF wb(1) [OF vi]] nb by blast
  show "\<forall>x \<in> listed (B(i := remove1 nb (B i))).
           PREV_FBLK nb \<noteq> NEXT_FBLK x \<and> PREV_FBLK x \<noteq> NEXT_FBLK nb"
  proof
    fix x assume "x \<in> listed (B(i := remove1 nb (B i)))"
    then have x: "x \<in> listed B" by (rule sub)
    from wf_dir_apart [OF wf in_B x] wf_dir_apart [OF wf x in_B]
    show "PREV_FBLK nb \<noteq> NEXT_FBLK x \<and> PREV_FBLK x \<noteq> NEXT_FBLK nb"
      by (simp add: PREV_FBLK_def NEXT_FBLK_def WSIZE_def)
  qed
qed

section \<open>Evaluation of the allocator on concrete heaps\<close>

lemmas macro_defs = WSIZE_def DSIZE_def CHUNKSIZE_def LISTS_def NULL_def PACK_def GET_def
  PUT_def GET_SIZE_def GET_ALLOC_def HDRP_def FTRP_def NEXT_BLKP_def PREV_BLKP_def
  NEXT_FBLK_def PREV_FBLK_def put_def set_list_def get_list_def mem_sbrk_def c_int_def

lemmas alloc_defs = mm_init_def mm_remove_fblock_def mm_insert_fblock_def coalesce_def
  extend_heap_def find_fit_def place_def mm_free_def mm_malloc_def mm_realloc_def
  mm_find_list_idx_def find_list_idx_loop.simps insert_walk.simps find_fit_list.simps
  find_fit_from.simps

lemmas check_defs = mm_check_def check_marked_list.simps check_marked_from.simps
  check_contiguous.simps search_list.simps check_listed.simps check_valid_list.simps
  check_valid_from.simps walk_heap.simps count_list_from.simps count_lists_from.simps

lemma replicate_16: "replicate 16 x = [x, x, x, x, x, x, x, x, x, x, x, x, x, x, x, x]"
  by (simp add: eval_nat_numeral)

text \<open>The word that a copy leaves at an address.\<close>

lemma memcpy_apply:
  "memcpy m dst src n a =
     (if a - dst < n
      then (if n - (a - dst) \<ge> 8 then m (src + (a - dst))
            else merge_bytes (unat (n - (a - dst))) (m (src + (a - dst))) (m a))
      else m a)"
  by (simp add: memcpy_def copy_bytes_def)

lemma memmove_apply:
  "memmove m dst src n a =
     (if a - dst < n
      then (if n - (a - dst) \<ge> 8 then m (src + (a - dst))
            else merge_bytes (unat (n - (a - dst))) (m (src + (a - dst))) (m a))
      else m a)"
  by (simp add: memmove_def copy_bytes_def)

lemmas copy_defs = memcpy_apply memmove_apply merge_bytes_def

lemma mm_init_arena0: "mm_init arena0 = (heap_init, 0)"
  by (simp add: arena0_def heap_init_def macro_defs alloc_defs Let_def replicate_16)

lemma mm_malloc_48: "mm_malloc heap_init 48 = Some (heap_a48, 4128)"
  by (simp add: heap_init_def heap_a48_def macro_defs alloc_defs Let_def)

lemma mm_realloc_shrink: "mm_realloc heap_a48 4128 1 = Some (heap_shrunk, 4128)"
  by (simp add: heap_a48_def heap_shrunk_def macro_defs alloc_defs Let_def)

lemma mm_malloc_1: "mm_malloc heap_init 1 = Some (heap_a1, 4128)"
  by (simp add: heap_init_def heap_a1_def macro_defs alloc_defs Let_def)

lemma mm_realloc_grow: "mm_realloc heap_a1 4128 100 = Some (heap_grown, 4128)"
  by (simp add: heap_a1_def heap_grown_def macro_defs alloc_defs Let_def)

lemma mm_check_shrunk: "mm_check heap_shrunk = Some 0"
  by (simp add: heap_shrunk_def macro_defs check_defs mm_find_list_idx_def
      find_list_idx_loop.simps)

lemma mm_malloc_abc:
  "mm_malloc heap_init 4200 \<bind> (\<lambda>(s, a). mm_malloc s 100 \<bind> (\<lambda>(s, b). mm_malloc s 4200))
   = Some (heap_abc, 8480)"
  by (simp add: heap_init_def heap_abc_def macro_defs alloc_defs Let_def)

lemma mm_free_a: "mm_free heap_abc 4128 = Some heap_bc"
  by (simp add: heap_abc_def heap_bc_def macro_defs alloc_defs Let_def)

lemma mm_free_c: "mm_free heap_bc 8480 = Some heap_b"
  by (simp add: heap_bc_def heap_b_def macro_defs alloc_defs Let_def)

lemma insert_c: "mm_insert_fblock heap_bc_cleared 8480 (- 1) = Some heap_b"
  by (simp add: heap_bc_cleared_def heap_b_def macro_defs alloc_defs Let_def)

lemma bucket_c: "bucket_index heap_bc_cleared 8480 (- 1) = 8"
  by (simp add: bucket_index_def heap_bc_cleared_def macro_defs mm_find_list_idx_def find_list_idx_loop.simps)

lemma int_range_16: "0 \<le> i \<Longrightarrow> i < 16 \<Longrightarrow> i \<in> {0, 1, 2, 3, 4, 5, 6, 7, 8, 9, 10, 11, 12, 13, 14, 15 :: int}"
  by simp arith

lemma heap_a1_buckets:
  "0 \<le> i \<Longrightarrow> i < 16 \<Longrightarrow>
   dll (mem heap_a1) NULL (get_list heap_a1 i) (if i = 2 then [4160] else []) \<and>
   links_apart (if i = 2 then [4160] else [])"
  using int_range_16 [of i]
  by (auto simp: heap_a1_def links_apart_def macro_defs)

lemma first_fit_a1:
  "first_fit (mem heap_a1) 32 (\<lambda>i. if i = 2 then [4160] else []) 0 = Some (2, 4160)"
  by (simp add: first_fit_def search_order_def upto_rec1 heap_a1_def macro_defs)

lemma mm_malloc_80: "mm_malloc heap_a1 80 = Some (heap_ab80, 4160)"
  by (simp add: heap_a1_def heap_ab80_def macro_defs alloc_defs Let_def)

lemma mm_malloc_24: "mm_malloc heap_ab80 24 = Some (heap_ab80_new, 4256)"
  by (simp add: heap_ab80_def heap_ab80_new_def macro_defs alloc_defs Let_def)

lemma mm_free_copied:
  "mm_free (heap_ab80_new\<lparr>mem := memcpy (mem heap_ab80_new) 4256 4128 24\<rparr>) 4128
   = Some heap_moved"
  by (simp add: heap_ab80_new_def heap_moved_def macro_defs alloc_defs copy_defs Let_def)

lemma mm_realloc_copy: "mm_realloc heap_ab80 4128 24 = Some (heap_moved, 4256)"
  by (simp add: heap_ab80_def heap_ab80_new_def heap_moved_def macro_defs alloc_defs copy_defs
      Let_def)

lemma realloc_copy_spec_eval: "realloc_copy_spec heap_ab80 4128 24 = Some (heap_moved_spec, 4256)"
  by (simp add: realloc_copy_spec_def heap_ab80_def heap_ab80_new_def heap_moved_spec_def
      macro_defs alloc_defs copy_defs Let_def)

lemma mm_malloc_full: "mm_malloc heap_ab80_full 24 = Some (heap_ab80_full, NULL)"
  by (simp add: heap_ab80_full_def heap_ab80_def macro_defs alloc_defs Let_def)

lemma heap_ab80_path:
  "adjusted_size 24 = 48" "GET_SIZE (mem heap_ab80) (HDRP 4128) = 32"
  "NEXT_BLKP (mem heap_ab80) 4128 = 4160" "GET (mem heap_ab80) (HDRP 4160) = PACK 96 1"
  "PREV_BLKP (mem heap_ab80) 4128 = 4112" "GET (mem heap_ab80) (HDRP 4112) = PACK 16 1"
  by (simp_all add: adjusted_size_def heap_ab80_def macro_defs)

lemma mm_free_a80: "mm_free heap_ab80 4128 = Some heap_fa80"
  by (simp add: heap_ab80_def heap_fa80_def macro_defs alloc_defs Let_def)

lemma mm_realloc_extend: "mm_realloc heap_fa80 4160 100 = Some (heap_fa80_grown, 4160)"
  by (simp add: heap_fa80_def heap_fa80_grown_def macro_defs alloc_defs Let_def)

lemma mm_malloc_100_1:
  "mm_malloc heap_init 100 \<bind> (\<lambda>(s, a). mm_malloc s 1) = Some (heap_a100_b1, 4256)"
  by (simp add: heap_init_def heap_a100_b1_def macro_defs alloc_defs Let_def)

lemma mm_free_left:
  "mm_free (heap_a100_b1\<lparr>mem := (mem heap_a100_b1)(4256 := 43690, 4264 := 48059)\<rparr>) 4128
   = Some heap_left_free"
  by (simp add: heap_a100_b1_def heap_left_free_def macro_defs alloc_defs Let_def)

lemma mm_realloc_left: "mm_realloc heap_left_free 4256 120 = Some (heap_left_grown, 4128)"
  by (simp add: heap_left_free_def heap_left_grown_def macro_defs alloc_defs Let_def)

text \<open>
  C1.  The claim is that after \<^verbatim>\<open>mm_init\<close> and any sequence of public calls no
  free block has a free neighbour.  The code breaks it: the sequence
  \<^verbatim>\<open>mm_init(); a = mm_malloc(48); mm_realloc(a, 1);\<close> shrinks the block of \<open>a\<close>
  in place and files the cut-off tail as a free block without looking at its
  right neighbour, which is free.  The block at 4160 is free, its right
  neighbour is the block at 4192, and that block is free as well.
\<close>

theorem realloc_shrink_leaves_adjacent_free_blocks:
  "mm_init arena0 = (heap_init, 0) \<and>
   mm_malloc heap_init 48 = Some (heap_a48, 4128) \<and>
   mm_realloc heap_a48 4128 1 = Some (heap_shrunk, 4128) \<and>
   GET_ALLOC (mem heap_shrunk) (HDRP 4160) = 0 \<and>
   NEXT_BLKP (mem heap_shrunk) 4160 = 4192 \<and>
   GET_ALLOC (mem heap_shrunk) (HDRP 4192) = 0"
  by (simp add: mm_init_arena0 mm_malloc_48 mm_realloc_shrink)
     (simp add: heap_shrunk_def macro_defs)

text \<open>
  C3.  The claim is that the audit returns true after any sequence of public
  calls.  On the heap that \<^verbatim>\<open>mm_init(); a = mm_malloc(48); mm_realloc(a, 1);\<close>
  leaves, \<^verbatim>\<open>mm_check\<close> finds the two neighbouring free blocks and returns 0.
\<close>

theorem mm_check_fails_after_realloc_shrink:
  "mm_init arena0 = (heap_init, 0) \<and>
   mm_malloc heap_init 48 = Some (heap_a48, 4128) \<and>
   mm_realloc heap_a48 4128 1 = Some (heap_shrunk, 4128) \<and>
   mm_check heap_shrunk = Some 0"
  by (simp add: mm_init_arena0 mm_malloc_48 mm_realloc_shrink mm_check_shrunk)

text \<open>
  C2.  The claim is that growing into the free right neighbour forms and files a
  free remainder only if bytes remain.  The code forms and files it always.
  After \<^verbatim>\<open>mm_init(); a = mm_malloc(1);\<close> the block of \<open>a\<close> has 32 bytes and its
  right neighbour, at 4160, is free with 96 bytes; \<^verbatim>\<open>mm_realloc(a, 100)\<close> needs
  128 bytes, so nothing remains.  The call still writes a header and a footer
  for a remainder of size 0: the header lands on the epilogue header (at 4248)
  and the footer on the footer of the grown block (at 4240), both now 0, and
  the address 4256, which is the end of the arena, is filed in bucket 0.
\<close>

theorem realloc_grow_right_files_empty_remainder:
  "mm_init arena0 = (heap_init, 0) \<and>
   mm_malloc heap_init 1 = Some (heap_a1, 4128) \<and>
   GET_SIZE (mem heap_a1) (HDRP 4128) = 32 \<and>
   NEXT_BLKP (mem heap_a1) 4128 = 4160 \<and>
   GET_ALLOC (mem heap_a1) (HDRP 4160) = 0 \<and>
   GET_SIZE (mem heap_a1) (HDRP 4160) = 96 \<and>
   GET (mem heap_a1) 4248 = PACK 0 1 \<and>
   mm_realloc heap_a1 4128 100 = Some (heap_grown, 4128) \<and>
   GET (mem heap_grown) (HDRP 4128) = PACK 128 1 \<and>
   GET (mem heap_grown) (FTRP (mem heap_grown) 4128) = 0 \<and>
   GET (mem heap_grown) 4248 = 0 \<and>
   get_list heap_grown 0 = 4256 \<and>
   mem_brk heap_grown = 4256"
  by (simp add: mm_init_arena0 mm_malloc_1 mm_realloc_grow)
     (simp add: heap_a1_def heap_grown_def macro_defs)

section \<open>Insertion policy\<close>

text \<open>
  C4 as stated puts the boundary between the two insertion orders at index 8.
  The boundary of \<^verbatim>\<open>mm_insert_fblock\<close> is \<^verbatim>\<open>(LISTS-1)/2\<close>, which is 7: a block
  of bucket 8 is inserted by address.  In the heap left by
  \<^verbatim>\<open>mm_init(); a = mm_malloc(4200); b = mm_malloc(100); c = mm_malloc(4200); mm_free(a);\<close>
  bucket 8 holds the block 4128.  \<^verbatim>\<open>mm_free(c)\<close> inserts the block 8480, whose
  index is 8 as well: the head of the bucket stays 4128 and 8480 is linked
  behind it, where the claim has it at the head.
\<close>

theorem insert_bucket_8_not_at_head:
  "mm_free heap_abc 4128 = Some heap_bc \<and>
   mm_free heap_bc 8480 = Some heap_b \<and>
   bucket_index heap_bc_cleared 8480 (- 1) = 8 \<and>
   get_list heap_bc_cleared 8 = 4128 \<and>
   mm_insert_fblock heap_bc_cleared 8480 (- 1) = Some heap_b \<and>
   get_list heap_b 8 \<noteq> 8480 \<and>
   get_list heap_b 8 = 4128 \<and>
   GET (mem heap_b) (NEXT_FBLK 4128) = 8480 \<and>
   GET (mem heap_b) (PREV_FBLK 8480) = 4128 \<and>
   GET (mem heap_b) (NEXT_FBLK 8480) = NULL"
  by (simp add: mm_free_a mm_free_c insert_c bucket_c)
     (simp add: heap_bc_cleared_def heap_b_def macro_defs)

text \<open>
  C4, amended.  Let the bucket of the inserted block be a well-formed doubly
  linked list \<open>xs\<close> whose link words, and those of the new block, are pairwise
  different words.  If the bucket index is greater than 7 and the bucket is in
  ascending address order, the block is spliced in where the order puts it,
  before the first block with a higher address; if the index is at most 7, the
  block becomes the head.  In both cases the insertion returns, the other
  buckets keep their heads, and only link words of the blocks involved change.
\<close>

theorem mm_insert_fblock_policy:
  assumes "idx = bucket_index s bp idx0" and "0 \<le> idx" and "idx < LISTS"
    and "length (free_lists s) = nat LISTS"
    and "dll (mem s) NULL (get_list s idx) xs" and "bp \<noteq> NULL"
    and "links_apart (bp # xs)" and "idx > 7 \<longrightarrow> sorted xs"
  shows "\<exists>s'. mm_insert_fblock s bp idx0 = Some s' \<and>
           dll (mem s') NULL (get_list s' idx) (if idx > 7 then insort bp xs else bp # xs) \<and>
           (\<forall>j. j \<noteq> idx \<and> 0 \<le> j \<longrightarrow> get_list s' j = get_list s j) \<and>
           (\<forall>a. a \<notin> link_words (bp # xs) \<longrightarrow> mem s' a = mem s a)"
proof (cases "idx > 7")
  case True
  with assms(8) have "sorted xs" by simp
  from insert_ordered [OF assms(1-4) True assms(5-7) this] True
  show ?thesis by simp
next
  case False
  from insert_lifo [OF assms(1-4) False assms(5-7)] False
  show ?thesis by simp
qed

text \<open>
  The theorem at work on bucket 8: the insertion of the block 8480 into the
  bucket that holds the block 4128; and on bucket 0: the heap left by
  \<^verbatim>\<open>mm_init(); a = mm_malloc(48); mm_realloc(a, 1);\<close> has the block 4160 in
  bucket 0, and a block at 4128 whose size, 32, belongs to bucket 0 too and
  which goes to the head.
\<close>

theorem mm_insert_fblock_policy_witness:
  "dll (mem heap_bc_cleared) NULL (get_list heap_bc_cleared 8) [4128] \<and>
   links_apart [8480, 4128] \<and> sorted [4128 :: addr] \<and>
   mm_insert_fblock heap_bc_cleared 8480 (- 1) = Some heap_b \<and>
   dll (mem heap_b) NULL (get_list heap_b 8) [4128, 8480] \<and>
   bucket_index heap_shrunk 4128 (- 1) = 0 \<and>
   dll (mem heap_shrunk) NULL (get_list heap_shrunk 0) [4160] \<and>
   links_apart [4128, 4160] \<and>
   (\<exists>s'. mm_insert_fblock heap_shrunk 4128 (- 1) = Some s' \<and>
         dll (mem s') NULL (get_list s' 0) [4128, 4160])"
proof -
  have d: "dll (mem heap_bc_cleared) NULL (get_list heap_bc_cleared 8) [4128]"
    by (simp add: heap_bc_cleared_def macro_defs)
  have a: "links_apart [8480, 4128]"
    by (simp add: links_apart_def macro_defs)
  have h: "(8 :: int) = bucket_index heap_bc_cleared 8480 (- 1)" "(0 :: int) \<le> 8" "8 < LISTS"
    "length (free_lists heap_bc_cleared) = nat LISTS" "(8480 :: addr) \<noteq> NULL"
    "(8 :: int) > 7 \<longrightarrow> sorted [4128 :: addr]"
    by (simp_all add: bucket_c) (simp_all add: heap_bc_cleared_def LISTS_def NULL_def)
  from mm_insert_fblock_policy [OF h(1-4) d h(5) a h(6)] insert_c
  have r8: "dll (mem heap_b) NULL (get_list heap_b 8) [4128, 8480]"
    by simp
  have b0: "bucket_index heap_shrunk 4128 (- 1) = 0"
    by (simp add: bucket_index_def heap_shrunk_def macro_defs mm_find_list_idx_def
        find_list_idx_loop.simps)
  have d0: "dll (mem heap_shrunk) NULL (get_list heap_shrunk 0) [4160]"
    by (simp add: heap_shrunk_def macro_defs)
  have a0: "links_apart [4128, 4160]"
    by (simp add: links_apart_def macro_defs)
  have h0: "(0 :: int) = bucket_index heap_shrunk 4128 (- 1)" "(0 :: int) \<le> 0" "0 < LISTS"
    "length (free_lists heap_shrunk) = nat LISTS" "(4128 :: addr) \<noteq> NULL"
    "(0 :: int) > 7 \<longrightarrow> sorted [4160 :: addr]"
    by (simp_all add: b0) (simp_all add: heap_shrunk_def LISTS_def NULL_def)
  from mm_insert_fblock_policy [OF h0(1-4) d0 h0(5) a0 h0(6)]
  have r0: "\<exists>s'. mm_insert_fblock heap_shrunk 4128 (- 1) = Some s' \<and>
         dll (mem s') NULL (get_list s' 0) [4128, 4160]"
    by auto
  from d a insert_c r8 b0 d0 a0 r0 show ?thesis by simp
qed

section \<open>First fit\<close>

text \<open>
  C7.  Let every bucket from \<open>mm_find_list_idx asize\<close> up to 15 be a well-formed
  doubly linked list, \<open>B i\<close> being the blocks of bucket \<open>i\<close> in link order.  Then
  \<^verbatim>\<open>find_fit\<close> returns, and its result is the first block of size at least
  \<open>asize\<close> in the search order that starts at bucket \<open>mm_find_list_idx asize\<close>,
  runs through each bucket in link order and goes on to the next bucket when
  one is exhausted; it is \<^verbatim>\<open>NULL\<close>, with the heap unchanged, when the buckets up
  to 15 hold no such block.  A block that is returned has been removed from its
  bucket: the bucket is now the list without that block.
\<close>

theorem find_fit_first_fit:
  assumes "\<forall>i. mm_find_list_idx asize \<le> i \<and> i < LISTS \<longrightarrow>
             dll (mem s) NULL (get_list s i) (B i) \<and> links_apart (B i)"
    and "length (free_lists s) = nat LISTS"
  shows "find_fit s asize =
           Some (case first_fit (mem s) asize B (mm_find_list_idx asize) of
                   None \<Rightarrow> (s, NULL)
                 | Some (i, bp) \<Rightarrow> (mm_remove_fblock s bp i, bp)) \<and>
         (\<forall>i bp. first_fit (mem s) asize B (mm_find_list_idx asize) = Some (i, bp) \<longrightarrow>
            bp \<noteq> NULL \<and> asize \<le> GET_SIZE (mem s) (HDRP bp) \<and> bp \<in> set (B i) \<and>
            mm_find_list_idx asize \<le> i \<and> i < LISTS \<and>
            dll (mem (mm_remove_fblock s bp i)) NULL (get_list (mm_remove_fblock s bp i) i)
              (remove1 bp (B i)))"
proof (intro conjI allI impI)
  have "\<forall>i. mm_find_list_idx asize \<le> i \<and> i < LISTS \<longrightarrow> dll (mem s) NULL (get_list s i) (B i)"
    using assms(1) by blast
  from find_fit_from_first_fit [OF this] mm_find_list_idx_range [of asize]
  show "find_fit s asize =
           Some (case first_fit (mem s) asize B (mm_find_list_idx asize) of
                   None \<Rightarrow> (s, NULL)
                 | Some (i, bp) \<Rightarrow> (mm_remove_fblock s bp i, bp))"
    by (simp add: find_fit_def)
next
  fix i bp
  assume ff: "first_fit (mem s) asize B (mm_find_list_idx asize) = Some (i, bp)"
  then have "(i, bp) \<in> set (search_order B (mm_find_list_idx asize))"
    and sz: "asize \<le> GET_SIZE (mem s) (HDRP bp)"
    by (auto simp: first_fit_def find_Some_iff in_set_conv_nth)
  then have i: "mm_find_list_idx asize \<le> i" "i < LISTS" and bp: "bp \<in> set (B i)"
    by (auto simp: search_order_def)
  from assms(1) i have d: "dll (mem s) NULL (get_list s i) (B i)" and a: "links_apart (B i)"
    by blast+
  have i0: "0 \<le> i" using i(1) mm_find_list_idx_range [of asize] by simp
  then have bi: "i = bucket_index s bp i" by (simp add: bucket_index_def)
  from remove_dll [OF bi i0 i(2) assms(2) d bp a] dll_nonnull [OF d] bp sz i
  show "bp \<noteq> NULL" "asize \<le> GET_SIZE (mem s) (HDRP bp)" "bp \<in> set (B i)"
    "mm_find_list_idx asize \<le> i" "i < LISTS"
    "dll (mem (mm_remove_fblock s bp i)) NULL (get_list (mm_remove_fblock s bp i) i)
              (remove1 bp (B i))"
    by auto
qed

text \<open>
  The search for 32 bytes in the heap left by \<^verbatim>\<open>mm_init(); mm_malloc(1);\<close>:
  buckets 0 and 1 are empty, bucket 2 holds the block 4160 of 96 bytes, which
  is returned and leaves bucket 2 empty.
\<close>

theorem find_fit_first_fit_witness:
  "mm_find_list_idx 32 = 0 \<and>
   first_fit (mem heap_a1) 32 (\<lambda>i. if i = 2 then [4160] else []) 0 = Some (2, 4160) \<and>
   find_fit heap_a1 32 = Some (mm_remove_fblock heap_a1 4160 2, 4160) \<and>
   get_list (mm_remove_fblock heap_a1 4160 2) 2 = NULL"
proof -
  have idx: "mm_find_list_idx 32 = 0"
    by (simp add: mm_find_list_idx_def find_list_idx_loop.simps LISTS_def)
  have h: "\<forall>i. mm_find_list_idx 32 \<le> i \<and> i < LISTS \<longrightarrow>
      dll (mem heap_a1) NULL (get_list heap_a1 i) (if i = 2 then [4160] else []) \<and>
      links_apart (if i = 2 then [4160] else [])"
    using heap_a1_buckets by (simp add: idx LISTS_def)
  have l: "length (free_lists heap_a1) = nat LISTS"
    by (simp add: heap_a1_def LISTS_def)
  from find_fit_first_fit [OF h l] first_fit_a1 idx
  show ?thesis by simp
qed

section \<open>Reallocation by copying\<close>

text \<open>
  C5 as stated has the fallback copy \<open>min(n, current_payload_size)\<close> bytes.  The
  code takes the size from the header of the old block, which counts header and
  footer, and copies \<open>min(n, block size)\<close> bytes.  In the heap with \<open>a\<close> (32
  bytes, payload 16 bytes) and \<open>b\<close>, \<^verbatim>\<open>mm_realloc(a, 24)\<close> copies 24 bytes: the
  third word of the new payload receives the word behind the old payload, the
  footer of \<open>a\<close>.  Copying the 16 bytes of the payload leaves that word as
  \<^verbatim>\<open>mm_malloc\<close> returned it.
\<close>

theorem realloc_copies_block_size_bytes:
  "mm_malloc heap_a1 80 = Some (heap_ab80, 4160) \<and>
   GET_SIZE (mem heap_ab80) (HDRP 4128) = 32 \<and>
   mm_realloc heap_ab80 4128 24 = Some (heap_moved, 4256) \<and>
   realloc_copy_spec heap_ab80 4128 24 = Some (heap_moved_spec, 4256) \<and>
   GET (mem heap_ab80) (4128 + 16) = PACK 32 1 \<and>
   GET (mem heap_moved) (4256 + 16) = PACK 32 1 \<and>
   GET (mem heap_moved_spec) (4256 + 16) = 0 \<and>
   mm_realloc heap_ab80 4128 24 \<noteq> realloc_copy_spec heap_ab80 4128 24"
proof -
  have v: "GET (mem heap_moved) (4256 + 16) = PACK 32 1"
    "GET (mem heap_moved_spec) (4256 + 16) = 0"
    by (simp_all add: heap_moved_def heap_moved_spec_def heap_ab80_new_def macro_defs copy_defs)
  then have "heap_moved \<noteq> heap_moved_spec"
    by (auto simp: PACK_def)
  moreover have "GET_SIZE (mem heap_ab80) (HDRP 4128) = 32"
    "GET (mem heap_ab80) (4128 + 16) = PACK 32 1"
    by (simp_all add: heap_ab80_def macro_defs)
  ultimately show ?thesis
    using v by (simp add: mm_malloc_80 mm_realloc_copy realloc_copy_spec_eval)
qed

text \<open>
  C5, amended.  When \<^verbatim>\<open>mm_realloc(p, n)\<close> reaches the copy fallback (\<open>p\<close> not
  null, \<open>n > 0\<close>, the adjusted size not below the block size, the right
  neighbour neither free and large enough nor of size 0, the left neighbour
  not free and large enough), it calls \<^verbatim>\<open>mm_malloc(n)\<close>, copies \<open>min(n, s)\<close> bytes
  from the old payload pointer to the new one, where \<open>s\<close> is the size in the
  old block's header, calls \<^verbatim>\<open>mm_free(p)\<close> and returns the new pointer; it
  returns exactly when these calls return.  If \<^verbatim>\<open>mm_malloc\<close> returns null, the
  result is null and the heap is the one before the call.  (The arena does not
  start at address 0, which is \<^verbatim>\<open>NULL\<close>.)
\<close>

theorem mm_realloc_copy_fallback:
  assumes "ptr \<noteq> NULL" and "sz \<noteq> 0" and "mem_brk s \<noteq> NULL"
    and "\<not> adjusted_size sz < GET_SIZE (mem s) (HDRP ptr)"
    and "\<not> (GET_ALLOC (mem s) (HDRP (NEXT_BLKP (mem s) ptr)) = 0 \<and>
            adjusted_size sz \<le> GET_SIZE (mem s) (HDRP ptr)
                                 + GET_SIZE (mem s) (HDRP (NEXT_BLKP (mem s) ptr)))"
    and "GET_SIZE (mem s) (HDRP (NEXT_BLKP (mem s) ptr)) \<noteq> 0"
    and "\<not> (GET_ALLOC (mem s) (HDRP (PREV_BLKP (mem s) ptr)) = 0 \<and>
            adjusted_size sz \<le> GET_SIZE (mem s) (HDRP ptr)
                                 + GET_SIZE (mem s) (HDRP (PREV_BLKP (mem s) ptr)))"
  shows "mm_realloc s ptr sz =
           (case mm_malloc s sz of
              None \<Rightarrow> None
            | Some (s1, newptr) \<Rightarrow>
                if newptr = NULL then Some (s, NULL)
                else
                  (case mm_free
                          (s1\<lparr>mem := memcpy (mem s1) newptr ptr
                                          (min sz (GET_SIZE (mem s1) (HDRP ptr)))\<rparr>) ptr of
                     None \<Rightarrow> None
                   | Some s3 \<Rightarrow> Some (s3, newptr)))"
proof -
  have mn: "(if sz < c then sz else c) = min sz c" for c :: "64 word"
    by (auto simp: min_def)
  have step: "mm_realloc s ptr sz =
      (case mm_malloc s sz of
         None \<Rightarrow> None
       | Some (s1, newptr) \<Rightarrow>
           if newptr = NULL then Some (s1, NULL)
           else
             (case mm_free
                     (s1\<lparr>mem := memcpy (mem s1) newptr ptr
                                     (min sz (GET_SIZE (mem s1) (HDRP ptr)))\<rparr>) ptr of
                None \<Rightarrow> None
              | Some s3 \<Rightarrow> Some (s3, newptr)))"
    unfolding mm_realloc_def Let_def
    by (simp only: assms(1,2,4-7) [unfolded adjusted_size_def, THEN neg_eq_False] if_False mn)
  show ?thesis
  proof (cases "mm_malloc s sz")
    case None
    with step show ?thesis by simp
  next
    case (Some r)
    obtain s1 newptr where r: "r = (s1, newptr)" by (cases r)
    show ?thesis
    proof (cases "newptr = NULL")
      case True
      with Some r assms(3) have "s1 = s" using mm_malloc_NULL by blast
      with step Some r True show ?thesis by simp
    next
      case False
      with step Some r show ?thesis by simp
    qed
  qed
qed

text \<open>
  The theorem on \<^verbatim>\<open>mm_realloc(a, 24)\<close> in the heap with \<open>a\<close> and \<open>b\<close>: the right
  neighbour \<open>b\<close> and the left neighbour, the prologue, are allocated; the new
  block is 4256.  In the arena that cannot grow the call returns null and
  leaves the heap as it was.
\<close>

theorem mm_realloc_copy_fallback_witness:
  "adjusted_size 24 = 48 \<and> GET_SIZE (mem heap_ab80) (HDRP 4128) = 32 \<and>
   GET (mem heap_ab80) (HDRP (NEXT_BLKP (mem heap_ab80) 4128)) = PACK 96 1 \<and>
   GET (mem heap_ab80) (HDRP (PREV_BLKP (mem heap_ab80) 4128)) = PACK 16 1 \<and>
   mm_realloc heap_ab80 4128 24 = Some (heap_moved, 4256) \<and>
   mm_realloc heap_ab80_full 4128 24 = Some (heap_ab80_full, NULL)"
proof -
  have h: "(4128 :: addr) \<noteq> NULL" "(24 :: 64 word) \<noteq> 0" "mem_brk heap_ab80 \<noteq> NULL"
    "\<not> adjusted_size 24 < GET_SIZE (mem heap_ab80) (HDRP 4128)"
    "\<not> (GET_ALLOC (mem heap_ab80) (HDRP (NEXT_BLKP (mem heap_ab80) 4128)) = 0 \<and>
        adjusted_size 24 \<le> GET_SIZE (mem heap_ab80) (HDRP 4128)
                            + GET_SIZE (mem heap_ab80) (HDRP (NEXT_BLKP (mem heap_ab80) 4128)))"
    "GET_SIZE (mem heap_ab80) (HDRP (NEXT_BLKP (mem heap_ab80) 4128)) \<noteq> 0"
    "\<not> (GET_ALLOC (mem heap_ab80) (HDRP (PREV_BLKP (mem heap_ab80) 4128)) = 0 \<and>
        adjusted_size 24 \<le> GET_SIZE (mem heap_ab80) (HDRP 4128)
                            + GET_SIZE (mem heap_ab80) (HDRP (PREV_BLKP (mem heap_ab80) 4128)))"
    by (simp_all add: adjusted_size_def heap_ab80_def macro_defs)
  have c: "min 24 (GET_SIZE (mem heap_ab80_new) (HDRP 4128)) = 24"
    by (simp add: heap_ab80_new_def macro_defs)
  from mm_realloc_copy_fallback [OF h] mm_malloc_24 mm_free_copied c
  have r1: "mm_realloc heap_ab80 4128 24 = Some (heap_moved, 4256)"
    by (simp add: NULL_def)
  have f: "mem heap_ab80_full = mem heap_ab80" "mem_brk heap_ab80_full = mem_brk heap_ab80"
    by (simp_all add: heap_ab80_full_def)
  from mm_realloc_copy_fallback [of 4128 24 heap_ab80_full] h mm_malloc_full
  have r2: "mm_realloc heap_ab80_full 4128 24 = Some (heap_ab80_full, NULL)"
    by (simp add: f)
  from heap_ab80_path r1 r2 show ?thesis by simp
qed

section \<open>Growing into the left neighbour\<close>

text \<open>
  C9 as stated lets \<^verbatim>\<open>mm_realloc\<close> grow into a free left neighbour whenever the
  right neighbour is allocated or too small.  The epilogue is an allocated right
  neighbour, and for it the code extends the arena instead: this path comes
  before the one into the left neighbour.  In the heap with \<open>a\<close> (4128, 32
  bytes, free) and \<open>b\<close> (4160, 96 bytes, the last block), \<^verbatim>\<open>mm_realloc(b, 100)\<close>
  needs 128 bytes, which \<open>a\<close> and \<open>b\<close> together have.  The call returns \<open>b\<close>
  itself, leaves \<open>a\<close> free in bucket 0 and moves the end of the arena by 32
  bytes.
\<close>

theorem realloc_last_block_extends_arena:
  "mm_free heap_ab80 4128 = Some heap_fa80 \<and>
   adjusted_size 100 = 128 \<and>
   GET_SIZE (mem heap_fa80) (HDRP 4160) = 96 \<and>
   GET (mem heap_fa80) (HDRP (NEXT_BLKP (mem heap_fa80) 4160)) = PACK 0 1 \<and>
   PREV_BLKP (mem heap_fa80) 4160 = 4128 \<and>
   GET (mem heap_fa80) (HDRP 4128) = PACK 32 0 \<and>
   get_list heap_fa80 0 = 4128 \<and>
   mm_realloc heap_fa80 4160 100 = Some (heap_fa80_grown, 4160) \<and>
   (4160 :: addr) \<noteq> 4128 \<and>
   get_list heap_fa80_grown 0 = 4128 \<and>
   GET (mem heap_fa80_grown) (HDRP 4128) = PACK 32 0 \<and>
   GET (mem heap_fa80_grown) (HDRP 4160) = PACK 128 1 \<and>
   mem_brk heap_fa80_grown = mem_brk heap_fa80 + 32"
  by (simp add: mm_free_a80 mm_realloc_extend)
     (simp add: heap_fa80_def heap_fa80_grown_def adjusted_size_def macro_defs)

text \<open>
  C9, amended: the right neighbour is, in addition, not the epilogue (its size
  is not 0).  The blocks are laid out as the boundary tags say: the left block
  ends where the block of \<open>ptr\<close> begins, both sizes are at least two words and
  the two blocks do not wrap around the address space.  The left block is filed
  in the bucket of its size, a well-formed list \<open>xs\<close>, and the other blocks of
  that bucket have their link words outside the two blocks.  Then the call
  returns the payload pointer of the left block; the left block is gone from
  its bucket and the other buckets keep their heads; header and footer of the
  combined block hold the combined size with the allocation bit, the footer
  being the old footer of the block of \<open>ptr\<close>, so nothing is split off; and
  every word of the old payload is found at the same offset in the new one,
  also where old and new payload overlap.
\<close>

theorem mm_realloc_grow_left:
  assumes nz: "ptr \<noteq> NULL" "sz \<noteq> 0"
    and names: "csize = GET_SIZE (mem s) (HDRP ptr)" "left = PREV_BLKP (mem s) ptr"
      "lsize = GET_SIZE (mem s) (HDRP left)" "right = NEXT_BLKP (mem s) ptr"
    and path: "\<not> adjusted_size sz < csize"
      "\<not> (GET_ALLOC (mem s) (HDRP right) = 0 \<and>
          adjusted_size sz \<le> csize + GET_SIZE (mem s) (HDRP right))"
      "GET_SIZE (mem s) (HDRP right) \<noteq> 0"
      "GET_ALLOC (mem s) (HDRP left) = 0" "adjusted_size sz \<le> csize + lsize"
    and layout: "ptr = left + lsize" "DSIZE \<le> csize" "DSIZE \<le> lsize"
      "unat lsize + unat csize < 2 ^ 64"
    and bucket: "idx = mm_find_list_idx lsize" "length (free_lists s) = nat LISTS"
      "dll (mem s) NULL (get_list s idx) xs" "left \<in> set xs" "links_apart xs"
    and apart: "\<forall>x \<in> set xs. x \<noteq> left \<longrightarrow>
        \<not> within (NEXT_FBLK x) (HDRP left) (lsize + csize) \<and>
        \<not> within (PREV_FBLK x) (HDRP left) (lsize + csize)"
  shows "\<exists>s'. mm_realloc s ptr sz = Some (s', left) \<and>
           dll (mem s') NULL (get_list s' idx) (remove1 left xs) \<and>
           (\<forall>j. j \<noteq> idx \<and> 0 \<le> j \<longrightarrow> get_list s' j = get_list s j) \<and>
           GET (mem s') (HDRP left) = PACK (lsize + csize) 1 \<and>
           FTRP (mem s') left = ptr + csize - DSIZE \<and>
           GET (mem s') (FTRP (mem s') left) = PACK (lsize + csize) 1 \<and>
           (\<forall>k. k < csize - DSIZE \<longrightarrow> mem s' (left + k) = mem s (ptr + k))"
proof -
  define hl where "hl = HDRP left"
  define cmb where "cmb = lsize + csize"
  define s1 where "s1 = mm_remove_fblock s left (- 1)"
  have hl: "left = hl + 8" "ptr = hl + 8 + lsize" "HDRP ptr = hl + lsize"
    using layout(1) by (simp_all add: hl_def HDRP_def WSIZE_def)
  have c16: "16 \<le> unat csize" and l16: "16 \<le> unat lsize"
    using layout(2,3) by (simp_all add: DSIZE_def WSIZE_def word_le_nat_alt)
  have ucmb: "unat cmb = unat lsize + unat csize"
    unfolding cmb_def using layout(4) by (rule unat_plus_64)
  have al: "cmb AND 15 = 0"
    unfolding cmb_def names(1,3) by (intro aligned_add GET_SIZE_aligned)
  text \<open>Offsets from the header of the left block.\<close>
  have off: "unat u < unat cmb \<Longrightarrow> within (hl + u) hl cmb" for u
    by (simp add: within_def word_less_nat_alt)
  have inside: "a \<notin> link_words (remove1 left xs)" if "within a hl cmb" for a
  proof
    assume "a \<in> link_words (remove1 left xs)"
    then obtain x where x: "x \<in> set (remove1 left xs)" "a = NEXT_FBLK x \<or> a = PREV_FBLK x"
      by (auto simp: link_words_def)
    have "distinct xs" using bucket(5) by (simp add: links_apart_def)
    with x(1) have "x \<in> set xs" "x \<noteq> left" by auto
    with apart x(2) that show False by (auto simp: hl_def cmb_def)
  qed
  text \<open>The removal of the left block from its bucket.\<close>
  have bi: "idx = bucket_index s left (- 1)"
    by (simp add: bucket_index_def bucket(1) names(3))
  have i0: "0 \<le> idx" "idx < LISTS"
    using mm_find_list_idx_range [of lsize] by (simp_all add: bucket(1) LISTS_def)
  from remove_dll [OF bi i0 bucket(2,3,4,5)]
  have r1: "dll (mem s1) NULL (get_list s1 idx) (remove1 left xs)"
    and r2: "\<forall>j. j \<noteq> idx \<and> 0 \<le> j \<longrightarrow> get_list s1 j = get_list s j"
    and r3: "\<And>a. a \<notin> link_words (remove1 left xs) \<Longrightarrow> mem s1 a = mem s a"
    by (simp_all add: s1_def)
  have keep: "within a hl cmb \<Longrightarrow> mem s1 a = mem s a" for a
    using r3 inside by blast
  have "within (hl + lsize) hl cmb"
    using c16 by (intro off) (simp add: ucmb)
  then have hp: "mem s1 (HDRP ptr) = mem s (HDRP ptr)"
    using keep by (simp add: hl(3))
  then have cs1: "GET_SIZE (mem s1) (HDRP ptr) = csize"
    by (simp add: names(1) GET_SIZE_def GET_def)
  text \<open>The heap that the call leaves.\<close>
  define M2 where "M2 = memmove (mem s1) left ptr csize"
  define ft where "ft = ptr + csize - DSIZE"
  define s' where "s' = s1\<lparr>mem := M2(hl := PACK cmb 1, ft := PACK cmb 1)\<rparr>"
  have ft: "ft = hl + (cmb - 8)"
    by (simp add: ft_def hl cmb_def DSIZE_def WSIZE_def)
  have c8: "8 \<le> cmb" using ucmb c16 by (simp add: word_le_nat_alt)
  have ucmb8: "unat (cmb - 8) = unat cmb - 8"
    using c8 by (simp add: unat_sub_64)
  have hl_ne_ft: "hl \<noteq> ft"
  proof
    assume "hl = ft"
    then have "cmb - 8 = 0" by (simp add: ft)
    then have "unat cmb - 8 = 0" using ucmb8 by simp
    then show False using ucmb c16 l16 by simp
  qed
  have gs: "GET_SIZE (M2(hl := PACK cmb 1)) hl = cmb"
    using al by (rule GET_SIZE_PACK_1)
  have run: "mm_realloc s ptr sz = Some (s', left)"
  proof -
    note c = nz [THEN neg_eq_False]
      path(1-3) [unfolded adjusted_size_def names, THEN neg_eq_False]
    have c4: "(GET_ALLOC (mem s) (HDRP (PREV_BLKP (mem s) ptr)) = 0 \<and>
        (if sz \<le> DSIZE then 2 * DSIZE else DSIZE * ((sz + DSIZE + (DSIZE - 1)) div DSIZE))
        \<le> GET_SIZE (mem s) (HDRP ptr) + GET_SIZE (mem s) (HDRP (PREV_BLKP (mem s) ptr))) = True"
      using path(4,5) by (simp add: adjusted_size_def names)
    have "mm_realloc s ptr sz =
        Some (put (put (s1\<lparr>mem := memmove (mem s1) left ptr (GET_SIZE (mem s1) (HDRP ptr))\<rparr>)
                    (HDRP left) (PACK (lsize + csize) 1))
                (FTRP (mem (put (s1\<lparr>mem := memmove (mem s1) left ptr
                           (GET_SIZE (mem s1) (HDRP ptr))\<rparr>)
                    (HDRP left) (PACK (lsize + csize) 1))) left) (PACK (lsize + csize) 1), left)"
      unfolding mm_realloc_def Let_def s1_def names
      by (simp only: c c4 if_False if_True)
    also have "\<dots> = Some (s', left)"
    proof -
      have A: "s1\<lparr>mem := memmove (mem s1) left ptr (GET_SIZE (mem s1) (HDRP ptr))\<rparr>
          = s1\<lparr>mem := M2\<rparr>"
        by (simp add: cs1 M2_def)
      have B: "put (s1\<lparr>mem := M2\<rparr>) (HDRP left) (PACK (lsize + csize) 1)
          = s1\<lparr>mem := M2(hl := PACK cmb 1)\<rparr>"
        by (simp add: put_def PUT_def hl_def cmb_def)
      have C: "FTRP (M2(hl := PACK cmb 1)) left = ft"
        unfolding FTRP_def hl_def [symmetric] gs
        by (simp add: ft_def layout(1) cmb_def)
      have D: "put (s1\<lparr>mem := M2(hl := PACK cmb 1)\<rparr>) ft (PACK (lsize + csize) 1) = s'"
        by (simp add: put_def PUT_def s'_def cmb_def)
      show ?thesis unfolding A B by (simp add: C D)
    qed
    finally show ?thesis .
  qed
  text \<open>What was written lies inside the two blocks.\<close>
  have written: "within a hl cmb" if "mem s' a \<noteq> mem s1 a" for a
  proof -
    from that have "a = hl \<or> a = ft \<or> a - left < csize"
      by (auto simp: s'_def M2_def memmove_apply split: if_splits)
    then show ?thesis
    proof (elim disjE)
      assume "a = hl"
      then show ?thesis using off [of 0] ucmb c16 by simp
    next
      assume "a = ft"
      then show ?thesis using off [of "cmb - 8"] ucmb8 ucmb c16 by (simp add: ft)
    next
      assume d: "a - left < csize"
      have e: "a = hl + ((a - left) + 8)" by (simp add: hl)
      have "unat (a - left) < unat csize" using d by (simp add: word_less_nat_alt)
      moreover from this have "unat ((a - left) + 8) = unat (a - left) + 8"
        using layout(4) l16 by (intro unat_plus_64 [where y = 8, simplified]) simp
      ultimately have "unat ((a - left) + 8) < unat cmb"
        using ucmb l16 by simp
      from off [OF this] e show ?thesis by simp
    qed
  qed
  have d': "dll (mem s') NULL (get_list s' idx) (remove1 left xs)"
  proof -
    have "dll (mem s') NULL (get_list s1 idx) (remove1 left xs)"
      using r1
    proof (rule dll_frame)
      fix x assume x: "x \<in> set (remove1 left xs)"
      then have "x \<in> link_words (remove1 left xs)" "x + 8 \<in> link_words (remove1 left xs)"
        by (auto simp: link_words_iff)
      then show "mem s' x = mem s1 x \<and> mem s' (x + 8) = mem s1 (x + 8)"
        using written inside by blast
    qed
    then show ?thesis by (simp add: s'_def get_list_def)
  qed
  have lists: "\<forall>j. j \<noteq> idx \<and> 0 \<le> j \<longrightarrow> get_list s' j = get_list s j"
    using r2 by (simp add: s'_def get_list_def)
  have hdr: "GET (mem s') (HDRP left) = PACK (lsize + csize) 1"
    using hl_ne_ft by (simp add: s'_def GET_def hl_def [symmetric] cmb_def)
  have ftr: "FTRP (mem s') left = ptr + csize - DSIZE"
  proof -
    have "GET_SIZE (mem s') hl = cmb"
      using gs hl_ne_ft by (simp add: s'_def GET_SIZE_def GET_def)
    then show ?thesis
      unfolding FTRP_def hl_def [symmetric]
      by (simp add: layout(1) cmb_def)
  qed
  have ftv: "GET (mem s') (FTRP (mem s') left) = PACK (lsize + csize) 1"
    unfolding ftr by (simp add: s'_def GET_def ft_def [symmetric] cmb_def)
  have payload: "\<forall>k. k < csize - DSIZE \<longrightarrow> mem s' (left + k) = mem s (ptr + k)"
  proof (intro allI impI)
    fix k assume k: "k < csize - DSIZE"
    have uc: "unat (csize - DSIZE) = unat csize - 16"
      using layout(2) by (simp add: unat_sub_64 DSIZE_def WSIZE_def)
    have uk: "unat k < unat csize - 16" using k uc by (simp add: word_less_nat_alt)
    have "unat csize < 2 ^ 64"
      using unsigned_less [of csize, where 'a = nat] by simp
    then have k8: "unat (k + 8) = unat k + 8"
      using uk by (intro unat_plus_64 [where y = 8, simplified]) simp
    have n1: "left + k \<noteq> hl"
    proof
      assume "left + k = hl"
      then have "k + 8 = 0" by (simp add: hl add.commute)
      then show False using k8 by simp
    qed
    have n2: "left + k \<noteq> ft"
    proof
      assume "left + k = ft"
      then have "k + 8 = cmb - 8" by (simp add: hl ft add.commute)
      then have "unat (k + 8) = unat (cmb - 8)" by (rule arg_cong)
      then have "unat k + 8 = unat cmb - 8" unfolding k8 ucmb8 .
      then show False using uk ucmb l16 by simp
    qed
    have lt: "k < csize" using uk by (simp add: word_less_nat_alt)
    have ge: "8 \<le> csize - k"
    proof -
      have "k \<le> csize" using lt by simp
      then have "unat (csize - k) = unat csize - unat k" by (rule unat_sub_64)
      then show ?thesis using uk by (simp add: word_le_nat_alt)
    qed
    have "mem s' (left + k) = mem s1 (ptr + k)"
      using n1 n2 lt ge by (simp add: s'_def M2_def memmove_apply)
    moreover have "within (ptr + k) hl cmb"
    proof -
      have e: "ptr + k = hl + (lsize + (k + 8))" by (simp add: hl)
      have "unat (lsize + (k + 8)) = unat lsize + unat (k + 8)"
        using k8 uk layout(4) by (intro unat_plus_64) simp
      then have "unat (lsize + (k + 8)) < unat cmb"
        using k8 uk ucmb by simp
      then show ?thesis unfolding e by (rule off)
    qed
    ultimately show "mem s' (left + k) = mem s (ptr + k)"
      using keep by simp
  qed
  from run d' lists hdr ftr ftv payload show ?thesis by blast
qed

text \<open>
  The theorem on \<^verbatim>\<open>mm_realloc(b, 120)\<close> in the heap where \<open>a\<close> (4128, 128 bytes)
  is free, \<open>b\<close> (4256, 32 bytes) holds the words 43690 and 48059, and the right
  neighbour (4288, 96 bytes) is free but too small: 144 bytes are needed.
\<close>

theorem mm_realloc_grow_left_witness:
  "mm_free (heap_a100_b1\<lparr>mem := (mem heap_a100_b1)(4256 := 43690, 4264 := 48059)\<rparr>) 4128
     = Some heap_left_free \<and>
   adjusted_size 120 = 144 \<and>
   GET_SIZE (mem heap_left_free) (HDRP 4256) = 32 \<and>
   PREV_BLKP (mem heap_left_free) 4256 = 4128 \<and>
   GET (mem heap_left_free) (HDRP 4128) = PACK 128 0 \<and>
   NEXT_BLKP (mem heap_left_free) 4256 = 4288 \<and>
   GET (mem heap_left_free) (HDRP 4288) = PACK 96 0 \<and>
   dll (mem heap_left_free) NULL (get_list heap_left_free 2) [4128, 4288] \<and>
   mm_realloc heap_left_free 4256 120 = Some (heap_left_grown, 4128) \<and>
   dll (mem heap_left_grown) NULL (get_list heap_left_grown 2) [4288] \<and>
   GET (mem heap_left_grown) (HDRP 4128) = PACK 160 1 \<and>
   GET (mem heap_left_grown) (FTRP (mem heap_left_grown) 4128) = PACK 160 1 \<and>
   mem heap_left_grown 4128 = 43690 \<and> mem heap_left_grown 4136 = 48059"
proof -
  have v: "adjusted_size 120 = 144"
    "GET_SIZE (mem heap_left_free) (HDRP 4256) = 32"
    "PREV_BLKP (mem heap_left_free) 4256 = 4128"
    "GET (mem heap_left_free) (HDRP 4128) = PACK 128 0"
    "NEXT_BLKP (mem heap_left_free) 4256 = 4288"
    "GET (mem heap_left_free) (HDRP 4288) = PACK 96 0"
    by (simp_all add: adjusted_size_def heap_left_free_def macro_defs)
  have d: "dll (mem heap_left_free) NULL (get_list heap_left_free 2) [4128, 4288]"
    by (simp add: heap_left_free_def macro_defs)
  have h: "(4256 :: addr) \<noteq> NULL" "(120 :: 64 word) \<noteq> 0"
    "(32 :: 64 word) = GET_SIZE (mem heap_left_free) (HDRP 4256)"
    "(4128 :: addr) = PREV_BLKP (mem heap_left_free) 4256"
    "(128 :: 64 word) = GET_SIZE (mem heap_left_free) (HDRP 4128)"
    "(4288 :: addr) = NEXT_BLKP (mem heap_left_free) 4256"
    "\<not> adjusted_size 120 < (32 :: 64 word)"
    "\<not> (GET_ALLOC (mem heap_left_free) (HDRP 4288) = 0 \<and>
        adjusted_size 120 \<le> 32 + GET_SIZE (mem heap_left_free) (HDRP 4288))"
    "GET_SIZE (mem heap_left_free) (HDRP 4288) \<noteq> 0"
    "GET_ALLOC (mem heap_left_free) (HDRP 4128) = 0" "adjusted_size 120 \<le> (32 :: 64 word) + 128"
    "(4256 :: addr) = 4128 + 128" "DSIZE \<le> 32" "DSIZE \<le> 128"
    "unat (128 :: 64 word) + unat (32 :: 64 word) < 2 ^ 64"
    "(2 :: int) = mm_find_list_idx 128" "length (free_lists heap_left_free) = nat LISTS"
    "(4128 :: addr) \<in> set [4128, 4288]" "links_apart [4128, 4288]"
    "\<forall>x \<in> set [4128, 4288 :: addr]. x \<noteq> 4128 \<longrightarrow>
        \<not> within (NEXT_FBLK x) (HDRP 4128) (128 + 32) \<and>
        \<not> within (PREV_FBLK x) (HDRP 4128) (128 + 32)"
    by (simp_all add: adjusted_size_def heap_left_free_def macro_defs links_apart_def within_def
        mm_find_list_idx_def find_list_idx_loop.simps)
  from mm_realloc_grow_left [OF h(1-15) h(16,17) d h(18-20)] mm_realloc_left
  have r: "dll (mem heap_left_grown) NULL (get_list heap_left_grown 2) [4288]"
    "GET (mem heap_left_grown) (HDRP 4128) = PACK 160 1"
    "GET (mem heap_left_grown) (FTRP (mem heap_left_grown) 4128) = PACK 160 1"
    "\<forall>k. k < 32 - DSIZE \<longrightarrow> mem heap_left_grown (4128 + k) = mem heap_left_free (4256 + k)"
    by auto
  from r(4) [rule_format, of 0] r(4) [rule_format, of 8]
  have p: "mem heap_left_grown 4128 = 43690" "mem heap_left_grown 4136 = 48059"
    by (simp_all add: heap_left_free_def DSIZE_def WSIZE_def)
  from mm_free_left v d mm_realloc_left r(1-3) p show ?thesis by simp
qed

section \<open>The four cases of coalescing\<close>

text \<open>
  C8: \<^verbatim>\<open>coalesce\<close> implements the four neighbour cases.  The block \<open>bp\<close> has been
  marked free in header and footer and is not filed yet; \<open>left\<close> and \<open>right\<close> are
  the blocks that the boundary tags name as its neighbours, \<open>lfree\<close> and \<open>rfree\<close>
  say whether their allocation bits are clear.  The free lists are well formed:
  bucket \<open>i\<close> is the chain \<open>B i\<close>, a free neighbour is filed in the bucket of its
  size, and no boundary tag of the three blocks is a link word of a filed block
  or of \<open>bp\<close>.  The three blocks follow each other without wrapping around the
  address space.  Then \<^verbatim>\<open>coalesce\<close> returns, and

    \<^item> every free neighbour has been removed from its bucket (the right one first,
      \<open>B1\<close>, then the left one, \<open>B2\<close>);
    \<^item> the result is the address of the left neighbour if that was free, and
      \<open>bp\<close> otherwise;
    \<^item> header and footer of the merged block hold the sum \<open>msize\<close> of the sizes
      of \<open>bp\<close> and of its free neighbours, with the allocation bit clear;
    \<^item> the merged block is filed in bucket \<open>mm_find_list_idx msize\<close>, computed from
      the merged size, at the place that the policy of that bucket gives it, and
      the free lists are well formed again.
\<close>

theorem coalesce_four_cases:
  assumes names: "sz = GET_SIZE (mem s) (HDRP bp)" "left = PREV_BLKP (mem s) bp"
      "lsize = GET_SIZE (mem s) (HDRP left)" "right = NEXT_BLKP (mem s) bp"
      "rsize = GET_SIZE (mem s) (HDRP right)"
    and free: "lfree = (GET_ALLOC (mem s) (FTRP (mem s) left) = 0)"
      "rfree = (GET_ALLOC (mem s) (HDRP right) = 0)"
    and wf: "wf_dir s B"
    and blk: "bp \<noteq> NULL" "bp \<notin> listed B"
      "\<forall>x \<in> listed B. PREV_FBLK bp \<noteq> NEXT_FBLK x \<and> PREV_FBLK x \<noteq> NEXT_FBLK bp"
    and layout: "bp = left + lsize" "sz \<noteq> 0" "unat lsize + unat sz + unat rsize < 2 ^ 64"
      "GET (mem s) (HDRP bp) = PACK sz 0" "GET (mem s) (FTRP (mem s) bp) = PACK sz 0"
      "lfree \<and> rfree \<longrightarrow> GET_SIZE (mem s) (FTRP (mem s) right) = rsize"
    and filed: "lfree \<longrightarrow> left \<in> set (B (mm_find_list_idx lsize))"
      "rfree \<longrightarrow> right \<in> set (B (mm_find_list_idx rsize))"
    and tags: "\<forall>a \<in> {HDRP bp, bp - DSIZE, HDRP left, HDRP right,
                    FTRP (mem s) right, FTRP (mem s) bp}.
               \<forall>x \<in> insert bp (listed B). a \<noteq> NEXT_FBLK x \<and> a \<noteq> PREV_FBLK x"
    and result: "r = (if lfree then left else bp)"
      "msize = sz + (if lfree then lsize else 0) + (if rfree then rsize else 0)"
      "B1 = (if rfree then B(mm_find_list_idx rsize :=
                               remove1 right (B (mm_find_list_idx rsize))) else B)"
      "B2 = (if lfree then B1(mm_find_list_idx lsize :=
                               remove1 left (B1 (mm_find_list_idx lsize))) else B1)"
      "j = mm_find_list_idx msize"
  shows "\<exists>s'. coalesce s bp = Some (s', r) \<and>
           wf_dir s' (B2(j := file_block j r (B2 j))) \<and>
           GET (mem s') (HDRP r) = PACK msize 0 \<and>
           GET (mem s') (r + msize - DSIZE) = PACK msize 0"
proof -
  define m where "m = mem s"
  define T where "T = {HDRP bp, bp - DSIZE, HDRP left, HDRP right, FTRP m right, FTRP m bp}"
  define il where "il = mm_find_list_idx lsize"
  define ir where "ir = mm_find_list_idx rsize"
  note nm = names [folded m_def]
  have vi: "0 \<le> il" "il < LISTS" "0 \<le> ir" "ir < LISTS"
    using mm_find_list_idx_range [of lsize] mm_find_list_idx_range [of rsize]
    by (simp_all add: il_def ir_def LISTS_def)
  text \<open>The addresses of the boundary tags.\<close>
  have right: "right = bp + sz"
    by (simp add: nm NEXT_BLKP_def HDRP_def)
  have gfl: "GET_SIZE m (bp - DSIZE) = lsize"
  proof -
    have "left = bp - GET_SIZE m (bp - DSIZE)" by (simp add: nm(2) PREV_BLKP_def)
    with layout(1) show ?thesis by simp
  qed
  have fl: "FTRP m left = bp - DSIZE"
    using layout(1) by (simp add: FTRP_def nm(3) [symmetric])
  have fb: "FTRP m bp = bp + sz - DSIZE"
    by (simp add: FTRP_def nm(1))
  have fr: "FTRP m right = bp + sz + rsize - DSIZE"
    by (simp add: FTRP_def nm(5) [symmetric]) (simp add: right)
  have al: "sz AND 15 = 0" "lsize AND 15 = 0" "rsize AND 15 = 0"
    by (simp_all add: names GET_SIZE_aligned)
  text \<open>A memory that agrees with the given one on a tag gives the same block.\<close>
  have at_bp: "NEXT_BLKP m' bp = right" "GET_SIZE m' (HDRP bp) = sz" "FTRP m' bp = FTRP m bp"
    if "m' (HDRP bp) = m (HDRP bp)" for m'
  proof -
    show a: "GET_SIZE m' (HDRP bp) = sz"
      using that by (simp add: nm GET_SIZE_def GET_def)
    show "NEXT_BLKP m' bp = right"
      using a by (simp add: NEXT_BLKP_def right HDRP_def)
    show "FTRP m' bp = FTRP m bp"
      using a by (simp add: FTRP_def nm(1) [symmetric])
  qed
  have at_left: "GET_SIZE m' (HDRP left) = lsize" if "m' (HDRP left) = m (HDRP left)" for m'
    using that by (simp add: nm GET_SIZE_def GET_def)
  have at_right: "GET_SIZE m' (HDRP right) = rsize" "FTRP m' right = FTRP m right"
    if "m' (HDRP right) = m (HDRP right)" for m'
  proof -
    show a: "GET_SIZE m' (HDRP right) = rsize"
      using that by (simp add: nm GET_SIZE_def GET_def)
    show "FTRP m' right = FTRP m right"
      using a by (simp add: FTRP_def nm(5) [symmetric])
  qed
  have at_foot: "PREV_BLKP m' bp = left" if "m' (bp - DSIZE) = m (bp - DSIZE)" for m'
    using that by (simp add: PREV_BLKP_def nm(2) GET_SIZE_def GET_def)
  have at_rfoot: "GET_SIZE m' (FTRP m right) = GET_SIZE m (FTRP m right)"
    if "m' (FTRP m right) = m (FTRP m right)" for m'
    using that by (simp add: GET_SIZE_def GET_def)
  have inT: "HDRP bp \<in> T" "bp - DSIZE \<in> T" "HDRP left \<in> T" "HDRP right \<in> T"
    "FTRP m right \<in> T" "FTRP m bp \<in> T"
    by (simp_all add: T_def)
  have tagp: "\<forall>x \<in> listed B. a \<noteq> NEXT_FBLK x \<and> a \<noteq> PREV_FBLK x" if "a \<in> T" for a
    using that tags unfolding T_def m_def by blast
  have tagx: "a \<noteq> x" "a \<noteq> x + 8" if "a \<in> T" "x \<in> listed B" for a x
    using tagp [OF that(1)] that(2) by (auto simp: NEXT_FBLK_def PREV_FBLK_def WSIZE_def)
  text \<open>No tag is a link word.\<close>
  have tagfree: "a \<notin> link_words xs" if "a \<in> T" "set xs \<subseteq> insert bp (listed B)" for a xs
  proof
    assume "a \<in> link_words xs"
    then obtain x where "x \<in> set xs" "a = NEXT_FBLK x \<or> a = PREV_FBLK x"
      by (auto simp: link_words_def)
    with that tags show False
      unfolding T_def m_def by blast
  qed
  have frame2: "wf_dir (u\<lparr>mem := (mem u)(a := v, b := w)\<rparr>) B'"
    if "wf_dir u B'" "\<And>x. x \<in> listed B' \<Longrightarrow> x \<in> listed B" "a \<in> T" "b \<in> T"
    for u B' a b v w
  proof (rule wf_dir_frame [OF that(1)])
    fix x
    assume "x \<in> listed B'"
    then have x: "x \<in> listed B" by (rule that(2))
    from tagx [OF that(3) x] tagx [OF that(4) x]
    show "((mem u)(a := v, b := w)) x = mem u x \<and>
          ((mem u)(a := v, b := w)) (x + 8) = mem u (x + 8)"
      by auto
  qed
  have vj: "0 \<le> j" "j < LISTS"
    using mm_find_list_idx_range [of msize] by (simp_all add: result(5) LISTS_def)
  have tgen: "a \<notin> link_words (r' # B' j)"
    if a: "a \<in> T" and sb: "\<And>x. x \<in> listed B' \<Longrightarrow> x \<in> listed B"
      and r': "r' = bp \<or> r' \<in> listed B"
    for a r' B'
  proof (rule tagfree [OF a])
    have "x \<in> listed B" if "x \<in> set (B' j)" for x
    proof (rule sb)
      show "x \<in> listed B'" using that vj listed_iff by blast
    qed
    with r' show "set (r' # B' j) \<subseteq> insert bp (listed B)" by auto
  qed
  text \<open>The tags that are written lie apart from the tags that are read afterwards.\<close>
  have nz: "x + y \<noteq> 0" if "unat x + unat y < 2 ^ 64" "x \<noteq> 0" for x y :: "64 word"
  proof
    assume "x + y = 0"
    then have "unat (x + y) = 0" by simp
    with unat_plus_64 [OF that(1)] have "unat x = 0" by simp
    with that(2) show False by (simp add: unat_eq_0)
  qed
  have d1: "FTRP m bp \<noteq> bp - DSIZE"
    using layout(2) by (simp add: fb)
  have d2: "HDRP left \<noteq> bp - DSIZE"
  proof
    assume "HDRP left = bp - DSIZE"
    then have "lsize = 8"
      by (simp add: HDRP_def WSIZE_def DSIZE_def layout(1))
    with aligned_not_8 [OF al(2)] show False by simp
  qed
  have d3: "FTRP m right \<noteq> bp - DSIZE"
  proof
    assume "FTRP m right = bp - DSIZE"
    then have "sz + rsize = 0" by (simp add: fr)
    moreover have "sz + rsize \<noteq> 0"
      using layout(2,3) by (intro nz) simp_all
    ultimately show False by simp
  qed
  have d5: "HDRP left \<noteq> HDRP right" and d6: "left \<noteq> right"
  proof -
    have "sz + lsize \<noteq> 0"
      using layout(2,3) by (intro nz) simp_all
    then show "left \<noteq> right" "HDRP left \<noteq> HDRP right"
      by (simp_all add: right layout(1) HDRP_def add.commute)
  qed
  note apart = d1 d2 d3 d1 [symmetric] d2 [symmetric] d3 [symmetric]
  note cond = free [symmetric] names(1,2,4) [symmetric]
  have sub: "set (B i) \<subseteq> listed B" if "0 \<le> i" "i < LISTS" for i
    using that listed_iff by blast
  have msz: "msize AND 15 = 0"
    unfolding result(2) using al by (auto intro!: aligned_add)
  show ?thesis
  proof (cases lfree; cases rfree)
    assume c: "\<not> lfree" "\<not> rfree"
    have run: "coalesce s bp =
        (case mm_insert_fblock s bp (- 1) of None \<Rightarrow> None | Some s1 \<Rightarrow> Some (s1, bp))"
      unfolding coalesce_def Let_def using c by (simp add: cond)
    have v: "r = bp" "msize = sz" "B2 = B"
      using c by (simp_all add: result)
    have hd: "mem s (HDRP bp) = sz" "mem s (FTRP m bp) = sz"
      using layout(4,5) by (simp_all add: GET_def PACK_def m_def)
    have tg: "a \<in> T \<Longrightarrow> a \<notin> link_words (bp # B j)" for a
      by (rule tgen) simp_all
    have "\<exists>s'. mm_insert_fblock s bp (- 1) = Some s' \<and>
            wf_dir s' (B(j := file_block j bp (B j))) \<and>
            mem s' (HDRP bp) = sz \<and> mem s' (FTRP m bp) = sz \<and> (\<forall>a \<in> T. mem s' a = mem s a)"
      by (rule coalesce_finish [OF wf blk al(1) hd _ tg])
        (simp_all add: T_def result(5) [unfolded v(2)])
    then obtain s' where s': "mm_insert_fblock s bp (- 1) = Some s'"
      "wf_dir s' (B(j := file_block j bp (B j)))" "mem s' (HDRP bp) = sz" "mem s' (FTRP m bp) = sz"
      by blast
    then show ?thesis
      using run by (simp add: v GET_def PACK_def fb)
  next
    assume c: "\<not> lfree" "rfree"
    define s1 where "s1 = mm_remove_fblock s right (- 1)"
    define t where "t = s1\<lparr>mem := (mem s1)(FTRP m right := msize, HDRP bp := msize)\<rparr>"
    have v: "r = bp" "msize = sz + rsize" "B1 = B(ir := remove1 right (B ir))" "B2 = B1"
      using c by (simp_all add: result ir_def)
    have rin: "right \<in> set (B ir)"
      using c filed(2) by (simp add: ir_def)
    note rm = coalesce_remove [OF wf _ rin, folded s1_def v(3)]
    have ir: "ir = mm_find_list_idx (GET_SIZE (mem s) (HDRP right))"
      by (simp add: ir_def names(5))
    have k1: "mem s1 a = m a" if "a \<in> T" for a
      using rm(2) [OF ir tagp [OF that]] by (simp add: m_def)
    have run: "coalesce s bp =
        (case mm_insert_fblock t bp (- 1) of None \<Rightarrow> None | Some s4 \<Rightarrow> Some (s4, bp))"
      unfolding coalesce_def Let_def using c
      by (simp add: cond s1_def [symmetric] at_bp [of "mem s1", OF k1 [OF inT(1)]]
          at_right [of "mem s1", OF k1 [OF inT(4)]] t_def put_def PUT_def PACK_def v)
    have wft: "wf_dir t B1"
      unfolding t_def by (rule frame2 [OF rm(1) [OF ir] rm(6) [OF ir] inT(5,1)])
    have nl: "bp \<notin> listed B1"
      using blk(2) rm(6) [OF ir] by blast
    have ap: "\<forall>x \<in> listed B1. PREV_FBLK bp \<noteq> NEXT_FBLK x \<and> PREV_FBLK x \<noteq> NEXT_FBLK bp"
      using blk(3) rm(6) [OF ir] by blast
    have tg: "a \<in> T \<Longrightarrow> a \<notin> link_words (bp # B1 j)" for a
      by (rule tgen [OF _ rm(6) [OF ir]]) simp_all
    have "\<exists>s'. mm_insert_fblock t bp (- 1) = Some s' \<and>
            wf_dir s' (B1(j := file_block j bp (B1 j))) \<and>
            mem s' (HDRP bp) = msize \<and> mem s' (FTRP m right) = msize \<and>
            (\<forall>a \<in> T. mem s' a = mem t a)"
      by (rule coalesce_finish [OF wft blk(1) nl ap msz _ _ result(5) tg])
        (simp_all add: t_def inT)
    then obtain s' where s': "mm_insert_fblock t bp (- 1) = Some s'"
      "wf_dir s' (B1(j := file_block j bp (B1 j)))" "mem s' (HDRP bp) = msize"
      "mem s' (FTRP m right) = msize"
      by blast
    then show ?thesis
      using run by (simp add: v(1,4) GET_def PACK_def fr v(2) add.assoc)
  next
    assume c: "lfree" "\<not> rfree"
    define s1 where "s1 = mm_remove_fblock s left (- 1)"
    define t where "t = s1\<lparr>mem := (mem s1)(FTRP m bp := msize, HDRP left := msize)\<rparr>"
    have v: "r = left" "msize = sz + lsize" "B1 = B" "B2 = B(il := remove1 left (B il))"
      using c by (simp_all add: result il_def)
    have lin: "left \<in> set (B il)"
      using c filed(1) by (simp add: il_def)
    have il: "il = mm_find_list_idx (GET_SIZE (mem s) (HDRP left))"
      by (simp add: il_def names(3))
    note rm = coalesce_remove [OF wf il lin, folded s1_def v(4)]
    have k1: "mem s1 a = m a" if "a \<in> T" for a
      using rm(2) [OF tagp [OF that]] by (simp add: m_def)
    have f2: "PREV_BLKP ((mem s1)(FTRP m bp := x)) bp = left"
      and f3: "PREV_BLKP ((mem s1)(FTRP m bp := x, HDRP left := y)) bp = left" for x y
      by (rule at_foot, simp add: apart k1 inT)+
    have run: "coalesce s bp =
        (case mm_insert_fblock t left (- 1) of None \<Rightarrow> None
         | Some s4 \<Rightarrow> Some (s4, PREV_BLKP (mem s4) bp))"
      unfolding coalesce_def Let_def using c
      by (simp add: cond s1_def [symmetric] at_bp [of "mem s1", OF k1 [OF inT(1)]]
          at_left [of "mem s1", OF k1 [OF inT(3)]] at_foot [of "mem s1", OF k1 [OF inT(2)]]
          f2 f3 t_def put_def PUT_def PACK_def v)
    have wft: "wf_dir t B2"
      unfolding t_def by (rule frame2 [OF rm(1) rm(6) inT(6,3)])
    have tg: "a \<in> T \<Longrightarrow> a \<notin> link_words (left # B2 j)" for a
      by (rule tgen [OF _ rm(6)]) (simp_all add: rm(5))
    have "\<exists>s'. mm_insert_fblock t left (- 1) = Some s' \<and>
            wf_dir s' (B2(j := file_block j left (B2 j))) \<and>
            mem s' (HDRP left) = msize \<and> mem s' (FTRP m bp) = msize \<and>
            (\<forall>a \<in> T. mem s' a = mem t a)"
      by (rule coalesce_finish [OF wft rm(4,3,7) msz _ _ result(5) tg])
        (simp_all add: t_def inT)
    then obtain s' where s': "mm_insert_fblock t left (- 1) = Some s'"
      "wf_dir s' (B2(j := file_block j left (B2 j)))" "mem s' (HDRP left) = msize"
      "mem s' (FTRP m bp) = msize" "\<forall>a \<in> T. mem s' a = mem t a"
      by blast
    have "mem s' (bp - DSIZE) = m (bp - DSIZE)"
      using s'(5) inT(2) k1 [OF inT(2)] by (simp add: t_def apart)
    then have ret: "PREV_BLKP (mem s') bp = left"
      by (rule at_foot)
    have "left + msize - DSIZE = FTRP m bp"
      unfolding fb v(2) by (simp add: layout(1) ac_simps)
    with s'(1-4) ret show ?thesis
      using run by (simp add: v(1) GET_def PACK_def)
  next
    assume c: "lfree" "rfree"
    define s1 where "s1 = mm_remove_fblock s right (- 1)"
    define s2 where "s2 = mm_remove_fblock s1 left (- 1)"
    define t where "t = s2\<lparr>mem := (mem s2)(HDRP left := msize, FTRP m right := msize)\<rparr>"
    have v: "r = left" "msize = sz + (lsize + rsize)" "B1 = B(ir := remove1 right (B ir))"
      "B2 = B1(il := remove1 left (B1 il))"
      using c by (simp_all add: result il_def ir_def)
    have rin: "right \<in> set (B ir)" and lin: "left \<in> set (B il)"
      using c filed by (simp_all add: il_def ir_def)
    have ir: "ir = mm_find_list_idx (GET_SIZE (mem s) (HDRP right))"
      by (simp add: ir_def names(5))
    note rm = coalesce_remove [OF wf ir rin, folded s1_def v(3)]
    have k1: "mem s1 a = m a" if "a \<in> T" for a
      using rm(2) [OF tagp [OF that]] by (simp add: m_def)
    have il: "il = mm_find_list_idx (GET_SIZE (mem s1) (HDRP left))"
      by (simp add: il_def at_left [of "mem s1", OF k1 [OF inT(3)]])
    have lin1: "left \<in> set (B1 il)"
      using lin d6 by (cases "il = ir") (simp_all add: v(3))
    note rl = coalesce_remove [OF rm(1) il lin1, folded s2_def v(4)]
    have sb: "x \<in> listed B" if "x \<in> listed B2" for x
      by (rule rm(6) [OF rl(6) [OF that]])
    have k2: "mem s2 a = m a" if "a \<in> T" for a
    proof -
      have "\<forall>x \<in> listed B1. a \<noteq> NEXT_FBLK x \<and> a \<noteq> PREV_FBLK x"
        using tagp [OF that] rm(6) by blast
      from rl(2) [OF this] k1 [OF that] show ?thesis by simp
    qed
    have lz: "HDRP left \<noteq> HDRP bp"
    proof
      assume "HDRP left = HDRP bp"
      then have "left = bp" by (simp add: HDRP_def)
      with rm(5) d6 blk(2) lin vi listed_iff [of left B] show False by blast
    qed
    have f3: "NEXT_BLKP ((mem s2)(HDRP left := x)) bp = right"
      and f4: "FTRP ((mem s2)(HDRP left := x)) right = FTRP m right" for x
      by (rule at_bp at_right, simp add: lz d5 lz [symmetric] d5 [symmetric] k2 inT)+
    have f5: "PREV_BLKP ((mem s2)(HDRP left := x, FTRP m right := y)) bp = left" for x y
      by (rule at_foot) (simp add: apart k2 inT)
    have rf: "GET_SIZE (mem s2) (FTRP m right) = rsize"
      using at_rfoot [of "mem s2", OF k2 [OF inT(5)]] layout(6) c by (simp add: m_def)
    have run: "coalesce s bp =
        (case mm_insert_fblock t left (- 1) of None \<Rightarrow> None
         | Some s5 \<Rightarrow> Some (s5, PREV_BLKP (mem s5) bp))"
      unfolding coalesce_def Let_def using c
      by (simp add: cond s1_def [symmetric] at_foot [of "mem s1", OF k1 [OF inT(2)]]
          s2_def [symmetric] at_bp [of "mem s2", OF k2 [OF inT(1)]]
          at_left [of "mem s2", OF k2 [OF inT(3)]] at_foot [of "mem s2", OF k2 [OF inT(2)]]
          at_right [of "mem s2", OF k2 [OF inT(4)]] rf
          f3 f4 f5 t_def put_def PUT_def PACK_def v)
    have wft: "wf_dir t B2"
      unfolding t_def by (rule frame2 [OF rl(1) sb inT(3,5)])
    have tg: "a \<in> T \<Longrightarrow> a \<notin> link_words (left # B2 j)" for a
      by (rule tgen [OF _ sb]) (simp_all add: rm(6) [OF rl(5)])
    have "\<exists>s'. mm_insert_fblock t left (- 1) = Some s' \<and>
            wf_dir s' (B2(j := file_block j left (B2 j))) \<and>
            mem s' (HDRP left) = msize \<and> mem s' (FTRP m right) = msize \<and>
            (\<forall>a \<in> T. mem s' a = mem t a)"
      by (rule coalesce_finish [OF wft rl(4,3,7) msz _ _ result(5) tg])
        (simp_all add: t_def inT)
    then obtain s' where s': "mm_insert_fblock t left (- 1) = Some s'"
      "wf_dir s' (B2(j := file_block j left (B2 j)))" "mem s' (HDRP left) = msize"
      "mem s' (FTRP m right) = msize" "\<forall>a \<in> T. mem s' a = mem t a"
      by blast
    have "mem s' (bp - DSIZE) = m (bp - DSIZE)"
      using s'(5) inT(2) k2 [OF inT(2)] by (simp add: t_def apart)
    then have ret: "PREV_BLKP (mem s') bp = left"
      by (rule at_foot)
    have "left + msize - DSIZE = FTRP m right"
      unfolding fr v(2) by (simp add: layout(1) ac_simps)
    with s'(1-4) ret show ?thesis
      using run by (simp add: v(1) GET_def PACK_def)
  qed
qed

text \<open>
  All hypotheses hold in the heap that \<^verbatim>\<open>mm_free(b)\<close> hands to \<^verbatim>\<open>coalesce\<close> when \<open>b\<close>
  (8352, 128 bytes) lies between the free blocks 4128 and 8480 of 4224 bytes
  each, both in bucket 8: the three blocks become one block of 8576 bytes at
  4128, the only block of bucket 9, and bucket 8 is empty.
\<close>

theorem coalesce_four_cases_witness:
  "wf_dir heap_b_cleared ((\<lambda>i. [])(8 := [4128, 8480])) \<and>
   GET (mem heap_b_cleared) (HDRP 8352) = PACK 128 0 \<and>
   (\<exists>s'. coalesce heap_b_cleared 8352 = Some (s', 4128) \<and>
         wf_dir s' ((\<lambda>i. [])(8 := [], 9 := [4128])) \<and>
         GET (mem s') (HDRP 4128) = PACK 8576 0 \<and>
         GET (mem s') (4128 + 8576 - DSIZE) = PACK 8576 0)"
proof -
  define B where "B = (\<lambda>i :: int. [] :: addr list)(8 := [4128, 8480])"
  have l: "listed B = {4128, 8480}"
    by (auto simp: listed_iff B_def LISTS_def)
  have r: "set [0..LISTS - 1] = {0, 1, 2, 3, 4, 5, 6, 7, 8, 9, 10, 11, 12, 13, 14, 15}"
    by (simp add: LISTS_def upto_rec1)
  have wf: "wf_dir heap_b_cleared B"
    unfolding wf_dir_def l r
    by (simp add: B_def heap_b_cleared_def macro_defs)
  have i: "mm_find_list_idx 4224 = 8" "mm_find_list_idx 8576 = 9"
    by (simp_all add: mm_find_list_idx_def find_list_idx_loop.simps LISTS_def)
  have h: "(128 :: 64 word) = GET_SIZE (mem heap_b_cleared) (HDRP 8352)"
    "(4128 :: addr) = PREV_BLKP (mem heap_b_cleared) 8352"
    "(4224 :: 64 word) = GET_SIZE (mem heap_b_cleared) (HDRP 4128)"
    "(8480 :: addr) = NEXT_BLKP (mem heap_b_cleared) 8352"
    "(4224 :: 64 word) = GET_SIZE (mem heap_b_cleared) (HDRP 8480)"
    "True = (GET_ALLOC (mem heap_b_cleared) (FTRP (mem heap_b_cleared) 4128) = 0)"
    "True = (GET_ALLOC (mem heap_b_cleared) (HDRP 8480) = 0)"
    "(8352 :: addr) \<noteq> NULL" "8352 \<notin> listed B"
    "\<forall>x \<in> listed B. PREV_FBLK 8352 \<noteq> NEXT_FBLK x \<and> PREV_FBLK x \<noteq> NEXT_FBLK 8352"
    "(8352 :: addr) = 4128 + 4224" "(128 :: 64 word) \<noteq> 0"
    "unat (4224 :: 64 word) + unat (128 :: 64 word) + unat (4224 :: 64 word) < 2 ^ 64"
    "GET (mem heap_b_cleared) (HDRP 8352) = PACK 128 0"
    "GET (mem heap_b_cleared) (FTRP (mem heap_b_cleared) 8352) = PACK 128 0"
    "True \<and> True \<longrightarrow>
       GET_SIZE (mem heap_b_cleared) (FTRP (mem heap_b_cleared) 8480) = 4224"
    "True \<longrightarrow> 4128 \<in> set (B (mm_find_list_idx 4224))"
    "True \<longrightarrow> 8480 \<in> set (B (mm_find_list_idx 4224))"
    "\<forall>a \<in> {HDRP 8352, 8352 - DSIZE, HDRP 4128, HDRP 8480,
             FTRP (mem heap_b_cleared) 8480, FTRP (mem heap_b_cleared) 8352}.
       \<forall>x \<in> insert 8352 (listed B). a \<noteq> NEXT_FBLK x \<and> a \<noteq> PREV_FBLK x"
    "(4128 :: addr) = (if True then 4128 else 8352)"
    "(8576 :: 64 word) = 128 + (if True then 4224 else 0) + (if True then 4224 else 0)"
    "B(8 := [4128]) = (if True then B(mm_find_list_idx 4224 :=
                               remove1 8480 (B (mm_find_list_idx 4224))) else B)"
    "B(8 := []) = (if True then (B(8 := [4128]))(mm_find_list_idx 4224 :=
                               remove1 4128 ((B(8 := [4128])) (mm_find_list_idx 4224)))
                   else B(8 := [4128]))"
    "(9 :: int) = mm_find_list_idx 8576"
    unfolding l i
    by (simp_all add: B_def heap_b_cleared_def macro_defs)
  from coalesce_four_cases [OF h(1-7) wf h(8-24)] wf h(14)
  show ?thesis
    by (simp add: B_def file_block_def)
qed

section \<open>The bucket index and the completeness of the search\<close>

text \<open>
  C10.  \<^verbatim>\<open>mm_find_list_idx\<close> is a total function whose result lies between 0 and
  15, and it is monotone: a size that is at most another gets a bucket index that
  is at most the other's.  Consequently, when every block of the free lists is
  filed under the index of its size, a block \<open>x\<close> of bucket \<open>i\<close> whose size is at
  least \<open>asize\<close> has \<open>mm_find_list_idx asize \<le> i\<close>: it lies in a bucket from the
  one where the search of \<^verbatim>\<open>find_fit\<close> starts upwards.  The search is therefore
  complete: if the buckets from \<open>mm_find_list_idx asize\<close> up to 15 are well-formed
  lists and some filed block \<open>y\<close>, of whatever bucket, has a size of at least
  \<open>asize\<close>, then \<^verbatim>\<open>find_fit\<close> returns a block, not \<^verbatim>\<open>NULL\<close>: a block \<open>bp\<close> of a
  bucket \<open>k\<close> at or above the starting bucket, of size at least \<open>asize\<close>, which
  it has removed from bucket \<open>k\<close>.
\<close>

theorem mm_find_list_idx_range_mono_complete:
  "0 \<le> mm_find_list_idx s \<and> mm_find_list_idx s \<le> 15 \<and>
   (s \<le> t \<longrightarrow> mm_find_list_idx s \<le> mm_find_list_idx t) \<and>
   (filed_by_size (mem h) B \<and> 0 \<le> i \<and> i < LISTS \<and> x \<in> set (B i) \<and>
    asize \<le> GET_SIZE (mem h) (HDRP x) \<longrightarrow> mm_find_list_idx asize \<le> i) \<and>
   (filed_by_size (mem h) B \<and>
    (\<forall>k. mm_find_list_idx asize \<le> k \<and> k < LISTS \<longrightarrow>
       dll (mem h) NULL (get_list h k) (B k)) \<and>
    y \<in> listed B \<and> asize \<le> GET_SIZE (mem h) (HDRP y) \<longrightarrow>
    (\<exists>k bp. find_fit h asize = Some (mm_remove_fblock h bp k, bp) \<and> bp \<noteq> NULL \<and>
       bp \<in> set (B k) \<and> mm_find_list_idx asize \<le> k \<and> k < LISTS \<and>
       asize \<le> GET_SIZE (mem h) (HDRP bp)))"
proof (intro conjI impI)
  show "0 \<le> mm_find_list_idx s" "mm_find_list_idx s \<le> 15"
    using find_list_idx_loop_range [of 0 s] by (simp_all add: mm_find_list_idx_def)
  show "mm_find_list_idx s \<le> mm_find_list_idx t" if "s \<le> t"
    using find_list_idx_loop_mono [of s t 0] that by (simp add: mm_find_list_idx_def)
  have above: "mm_find_list_idx asize \<le> j"
    if f: "filed_by_size (mem h) B" and j: "0 \<le> j" "j < LISTS" and z: "z \<in> set (B j)"
      and sz: "asize \<le> GET_SIZE (mem h) (HDRP z)" for j z
  proof -
    from j have "j \<in> set [0..LISTS - 1]" by simp
    with f z have "mm_find_list_idx (GET_SIZE (mem h) (HDRP z)) = j"
      unfolding filed_by_size_def by blast
    with mm_find_list_idx_mono [OF sz] show ?thesis by simp
  qed
  show "mm_find_list_idx asize \<le> i"
    if "filed_by_size (mem h) B \<and> 0 \<le> i \<and> i < LISTS \<and> x \<in> set (B i) \<and>
        asize \<le> GET_SIZE (mem h) (HDRP x)"
    using that above by blast
  assume a: "filed_by_size (mem h) B \<and>
    (\<forall>k. mm_find_list_idx asize \<le> k \<and> k < LISTS \<longrightarrow>
       dll (mem h) NULL (get_list h k) (B k)) \<and>
    y \<in> listed B \<and> asize \<le> GET_SIZE (mem h) (HDRP y)"
  then have d: "\<forall>k. mm_find_list_idx asize \<le> k \<and> k < LISTS \<longrightarrow>
       dll (mem h) NULL (get_list h k) (B k)"
    and sz: "asize \<le> GET_SIZE (mem h) (HDRP y)" and f: "filed_by_size (mem h) B"
    by blast+
  let ?P = "\<lambda>(k :: int, bp). asize \<le> GET_SIZE (mem h) (HDRP bp)"
  from a obtain j where j: "0 \<le> j" "j < LISTS" "y \<in> set (B j)"
    unfolding listed_iff by blast
  from above [OF f j sz] j have "(j, y) \<in> set (search_order B (mm_find_list_idx asize))"
    by (auto simp: search_order_def)
  with sz have "\<exists>p \<in> set (search_order B (mm_find_list_idx asize)). ?P p"
    by (intro bexI [of _ "(j, y)"]) simp_all
  then have "first_fit (mem h) asize B (mm_find_list_idx asize) \<noteq> None"
    by (auto simp: first_fit_def find_None_iff)
  then obtain k bp where ff: "first_fit (mem h) asize B (mm_find_list_idx asize) = Some (k, bp)"
    by auto
  then have "(k, bp) \<in> set (search_order B (mm_find_list_idx asize))"
    and fit: "asize \<le> GET_SIZE (mem h) (HDRP bp)"
    by (auto simp: first_fit_def find_Some_iff in_set_conv_nth)
  then have k: "mm_find_list_idx asize \<le> k" "k < LISTS" and bp: "bp \<in> set (B k)"
    by (auto simp: search_order_def)
  from d k have "dll (mem h) NULL (get_list h k) (B k)" by blast
  from dll_nonnull [OF this] bp have nn: "bp \<noteq> NULL" by blast
  from find_fit_from_first_fit [OF d] mm_find_list_idx_range [of asize] ff
  have "find_fit h asize = Some (mm_remove_fblock h bp k, bp)"
    by (simp add: find_fit_def)
  with nn bp k fit
  show "\<exists>k bp. find_fit h asize = Some (mm_remove_fblock h bp k, bp) \<and> bp \<noteq> NULL \<and>
       bp \<in> set (B k) \<and> mm_find_list_idx asize \<le> k \<and> k < LISTS \<and>
       asize \<le> GET_SIZE (mem h) (HDRP bp)"
    by blast
qed

text \<open>
  In the heap with the free blocks 4128 and 8480 of 4224 bytes each, both in
  bucket 8, a search for 96 bytes starts at bucket 2 and returns 4128.
\<close>

theorem mm_find_list_idx_range_mono_complete_witness:
  "(96 :: 64 word) \<le> 4224 \<and> mm_find_list_idx 96 = 2 \<and> mm_find_list_idx 4224 = 8 \<and>
   mm_find_list_idx 96 \<le> mm_find_list_idx 4224 \<and>
   filed_by_size (mem heap_b) ((\<lambda>i. [])(8 := [4128, 8480])) \<and>
   dll (mem heap_b) NULL (get_list heap_b 8) [4128, 8480] \<and>
   GET_SIZE (mem heap_b) (HDRP 8480) = 4224 \<and>
   (\<exists>k bp. find_fit heap_b 96 = Some (mm_remove_fblock heap_b bp k, bp) \<and> bp \<noteq> NULL \<and>
      bp \<in> set (((\<lambda>i. [])(8 := [4128, 8480])) k) \<and> 2 \<le> k \<and> k < LISTS \<and>
      96 \<le> GET_SIZE (mem heap_b) (HDRP bp)) \<and>
   map_option snd (find_fit heap_b 96) = Some 4128"
proof -
  define B where "B = (\<lambda>i :: int. [] :: addr list)(8 := [4128, 8480])"
  have i: "mm_find_list_idx 96 = 2" "mm_find_list_idx 4224 = 8"
    by (simp_all add: mm_find_list_idx_def find_list_idx_loop.simps LISTS_def)
  have r: "set [0..LISTS - 1] = {0, 1, 2, 3, 4, 5, 6, 7, 8, 9, 10, 11, 12, 13, 14, 15}"
    by (simp add: LISTS_def upto_rec1)
  have g: "GET_SIZE (mem heap_b) (HDRP 4128) = 4224" "GET_SIZE (mem heap_b) (HDRP 8480) = 4224"
    by (simp_all add: heap_b_def macro_defs)
  have f: "filed_by_size (mem heap_b) B"
    unfolding filed_by_size_def r by (simp add: B_def g i)
  have d8: "dll (mem heap_b) NULL (get_list heap_b 8) [4128, 8480]"
    by (simp add: heap_b_def macro_defs)
  have d: "\<forall>k. mm_find_list_idx 96 \<le> k \<and> k < LISTS \<longrightarrow>
       dll (mem heap_b) NULL (get_list heap_b k) (B k)"
  proof (intro allI impI)
    fix k :: int
    assume "mm_find_list_idx 96 \<le> k \<and> k < LISTS"
    then have "k \<in> set [0..LISTS - 1]" by (simp add: i)
    then show "dll (mem heap_b) NULL (get_list heap_b k) (B k)"
      unfolding r using d8 by (auto simp: B_def heap_b_def get_list_def NULL_def)
  qed
  have y: "8480 \<in> listed B" "8480 \<in> set (B 8)" "(0 :: int) \<le> 8" "8 < LISTS"
    by (auto simp: listed_iff B_def LISTS_def)
  have e: "map_option snd (find_fit heap_b 96) = Some 4128"
    by (simp add: heap_b_def macro_defs alloc_defs Let_def)
  from mm_find_list_idx_range_mono_complete
    [of 96 4224 heap_b B 8 8480 96 8480] f d d8 y g i e
  show ?thesis
    by (simp add: B_def)
qed

end
